theory Spec2Isabelle
  imports Main "HOL-Library.Word" "HOL-Library.Multiset"
begin

unbundle bit_operations_syntax

section \<open>Bytes, errors and archive actions\<close>

text \<open>
  A shallow embedding of \<^verbatim>\<open>src/serializer.h\<close> (namespace \<^verbatim>\<open>zpp::serializer\<close>).
  Memory is a list of bytes; \<^verbatim>\<open>std::size_t\<close> quantities (buffer sizes, offsets) are
  natural numbers, since a size never exceeds the address space and so never wraps;
  \<^verbatim>\<open>size_type\<close> and \<^verbatim>\<open>id_type\<close> are machine words, because the code truncates
  into them.
\<close>

type_synonym byte = "8 word"
type_synonym size_type = "32 word"
type_synonym id_type = "64 word"

text \<open>
  The four exception aliases of the header (lines 328-331), \<^verbatim>\<open>std::bad_cast\<close> as thrown
  by a failing \<^verbatim>\<open>dynamic_cast\<close> to a reference, and an exception raised by user code.
\<close>

datatype error =
    out_of_range
  | undeclared_polymorphic_type_error
  | attempt_to_serialize_null_pointer_error
  | polymorphic_type_mismatch_error
  | bad_cast
  | user_error nat
  | undefined_behaviour
  | ill_typed
  | out_of_fuel

text \<open>
  A call that may throw is a function from the state before to the state after, paired
  with the exception that left it (\<open>None\<close> for a normal return). The state after is kept
  on both paths: nothing in the archives rolls back.
\<close>

type_synonym 's action = "'s \<Rightarrow> error option \<times> 's"

definition returns :: "'s action" where
  "returns s = (None, s)"

definition throw :: "error \<Rightarrow> 's action" where
  "throw e s = (Some e, s)"

definition and_then :: "'s action \<Rightarrow> 's action \<Rightarrow> 's action" where
  "and_then f g s = (case f s of (Some e, s') \<Rightarrow> (Some e, s') | (None, s') \<Rightarrow> g s')"

section \<open>Output archives\<close>

text \<open>\<^verbatim>\<open>std::vector<unsigned char>::resize\<close>: truncates, or appends zero bytes.\<close>

definition vector_resize :: "nat \<Rightarrow> byte list \<Rightarrow> byte list" where
  "vector_resize n xs = take n xs @ replicate (n - length xs) 0"

text \<open>\<^verbatim>\<open>std::copy_n(src, n, dest + pos)\<close> into a buffer that holds \<open>pos + n\<close> bytes.\<close>

definition copy_n :: "byte list \<Rightarrow> nat \<Rightarrow> nat \<Rightarrow> byte list \<Rightarrow> byte list" where
  "copy_n src n pos dest = take pos dest @ take n src @ drop (pos + n) dest"

text \<open>
  \<^verbatim>\<open>lazy_vector_memory_output_archive\<close> (lines 789-874): the caller's vector and the
  logical size.
\<close>

record lazy_vector_memory_output_archive =
  m_output :: "byte list"
  m_size :: nat

text \<open>
  \<^verbatim>\<open>serialize(Item && item)\<close> (lines 820-835). The item is given by its object
  representation, \<^verbatim>\<open>sizeof(item)\<close> bytes.
\<close>

definition serialize_item_out ::
  "byte list \<Rightarrow> lazy_vector_memory_output_archive \<Rightarrow> lazy_vector_memory_output_archive" where
  "serialize_item_out item a =
     (let out = (if m_size a + length item > length (m_output a)
                 then vector_resize ((m_size a + length item) * 3 div 2) (m_output a)
                 else m_output a)
      in \<lparr>m_output = copy_n item (length item) (m_size a) out,
          m_size = m_size a + length item\<rparr>)"

text \<open>
  \<^verbatim>\<open>serialize(const void * data, size_type size)\<close> (lines 840-854): \<open>data\<close> is the memory
  the pointer refers to, of which the first \<open>size\<close> bytes are copied.
\<close>

definition serialize_binary_out ::
  "byte list \<Rightarrow> size_type \<Rightarrow> lazy_vector_memory_output_archive \<Rightarrow> lazy_vector_memory_output_archive" where
  "serialize_binary_out data sz a =
     (let out = (if m_size a + unat sz > length (m_output a)
                 then vector_resize ((m_size a + unat sz) * 3 div 2) (m_output a)
                 else m_output a)
      in \<lparr>m_output = copy_n data (unat sz) (m_size a) out,
          m_size = m_size a + unat sz\<rparr>)"

text \<open>
  \<^verbatim>\<open>archive::operator()\<close> and \<^verbatim>\<open>serialize_items\<close> (lines 660-743) of the output
  archive on a pack of items of fundamental type: each is written in turn.
\<close>

fun serialize_items_out :: "byte list list \<Rightarrow> lazy_vector_memory_output_archive action" where
  "serialize_items_out [] a = (None, a)"
| "serialize_items_out (item # items) a = serialize_items_out items (serialize_item_out item a)"

text \<open>\<^verbatim>\<open>fit_vector\<close> (lines 859-862).\<close>

definition fit_vector :: "lazy_vector_memory_output_archive \<Rightarrow> lazy_vector_memory_output_archive" where
  "fit_vector a = a\<lparr>m_output := vector_resize (m_size a) (m_output a)\<rparr>"

text \<open>The constructor of \<^verbatim>\<open>memory_output_archive\<close> (lines 811-815, 891-894).\<close>

definition memory_output_archive :: "byte list \<Rightarrow> lazy_vector_memory_output_archive" where
  "memory_output_archive output = \<lparr>m_output = output, m_size = length output\<rparr>"

text \<open>
  \<^verbatim>\<open>memory_output_archive::operator()\<close> (lines 899-913). The argument \<open>items\<close> is
  \<^verbatim>\<open>base::operator()(items...)\<close>, the work the base archive does for the given items;
  the vector is fitted in the \<^verbatim>\<open>try\<close> block and in the \<^verbatim>\<open>catch\<close> block.
\<close>

definition memory_output_archive_call ::
  "lazy_vector_memory_output_archive action \<Rightarrow> lazy_vector_memory_output_archive action" where
  "memory_output_archive_call items a =
     (case items a of
        (None, a') \<Rightarrow> (None, fit_vector a')
      | (Some e, a') \<Rightarrow> (Some e, fit_vector a'))"

section \<open>Input archives\<close>

text \<open>
  \<^verbatim>\<open>memory_view_input_archive\<close> (lines 920-1023): the borrowed bytes, their count and
  the cursor. The field \<^verbatim>\<open>m_size\<close> is named \<open>m_input_size\<close> here, the output archive
  having a field of the same name.
\<close>

record memory_view_input_archive =
  m_input :: "byte list"
  m_input_size :: nat
  m_offset :: nat

definition memory_view_input_archive :: "byte list \<Rightarrow> nat \<Rightarrow> memory_view_input_archive" where
  "memory_view_input_archive input n = \<lparr>m_input = input, m_input_size = n, m_offset = 0\<rparr>"

definition reset :: "memory_view_input_archive \<Rightarrow> memory_view_input_archive" where
  "reset a = a\<lparr>m_offset := 0\<rparr>"

definition get_offset :: "memory_view_input_archive \<Rightarrow> nat" where
  "get_offset a = m_offset a"

text \<open>
  \<^verbatim>\<open>serialize(Item && item)\<close> of the view archive (lines 976-989). The state is the
  destination item (its object representation) and the archive.
\<close>

definition serialize_item_in :: "(byte list \<times> memory_view_input_archive) action" where
  "serialize_item_in s =
     (case s of (item, a) \<Rightarrow>
        if m_input_size a < length item + m_offset a then (Some out_of_range, (item, a))
        else (None, (take (length item) (drop (m_offset a) (m_input a)),
                     a\<lparr>m_offset := m_offset a + length item\<rparr>)))"

text \<open>
  \<^verbatim>\<open>serialize(void * data, size_type size)\<close> of the view archive (lines 994-1006): the
  first \<open>size\<close> bytes of the destination memory are overwritten.
\<close>

definition serialize_binary_in :: "size_type \<Rightarrow> (byte list \<times> memory_view_input_archive) action" where
  "serialize_binary_in sz s =
     (case s of (data, a) \<Rightarrow>
        if m_input_size a < unat sz + m_offset a then (Some out_of_range, (data, a))
        else (None, (take (unat sz) (drop (m_offset a) (m_input a)) @ drop (unat sz) data,
                     a\<lparr>m_offset := m_offset a + unat sz\<rparr>)))"

text \<open>
  \<^verbatim>\<open>archive::operator()\<close> and \<^verbatim>\<open>serialize_items\<close> (lines 660-701) of the view archive
  on a pack of items of fundamental type: the items are read one by one, left to right,
  and an exception leaves the items read so far in their destinations.
\<close>

fun serialize_items_in :: "(byte list list \<times> memory_view_input_archive) action" where
  "serialize_items_in ([], a) = (None, ([], a))"
| "serialize_items_in (item # items, a) =
     (case serialize_item_in (item, a) of
        (Some e, (item', a')) \<Rightarrow> (Some e, (item' # items, a'))
      | (None, (item', a')) \<Rightarrow>
          (case serialize_items_in (items, a') of
             (r, (items', a'')) \<Rightarrow> (r, (item' # items', a''))))"

text \<open>
  \<^verbatim>\<open>memory_input_archive\<close> (lines 1029-1074): the caller's vector (the member
  \<^verbatim>\<open>m_input\<close> of the derived class) and the view archive it inherits from.
\<close>

record memory_input_archive =
  m_input_vector :: "byte list"
  view :: memory_view_input_archive

definition memory_input_archive :: "byte list \<Rightarrow> memory_input_archive" where
  "memory_input_archive input =
     \<lparr>m_input_vector = input, view = memory_view_input_archive input (length input)\<rparr>"

text \<open>\<^verbatim>\<open>m_input->erase(m_input->begin(), m_input->begin() + n)\<close>.\<close>

definition erase_head :: "nat \<Rightarrow> byte list \<Rightarrow> byte list" where
  "erase_head n xs = drop n xs"

text \<open>
  \<^verbatim>\<open>memory_input_archive::operator()\<close> (lines 1044-1067). The view is first rebuilt
  over the vector (which puts the cursor at zero); \<open>items\<close> is
  \<^verbatim>\<open>memory_view_input_archive::operator()(items...)\<close> on destinations \<open>d\<close>. Both the
  \<^verbatim>\<open>catch\<close> block and the normal path erase \<^verbatim>\<open>get_offset()\<close> bytes and reset.
\<close>

definition memory_input_archive_call ::
  "('d \<times> memory_view_input_archive) action \<Rightarrow> ('d \<times> memory_input_archive) action" where
  "memory_input_archive_call items s =
     (case s of (d, a) \<Rightarrow>
        (case items (d, memory_view_input_archive (m_input_vector a) (length (m_input_vector a))) of
           (Some e, (d', v)) \<Rightarrow>
             (Some e, (d', \<lparr>m_input_vector = erase_head (get_offset v) (m_input_vector a),
                             view = reset v\<rparr>))
         | (None, (d', v)) \<Rightarrow>
             (None, (d', \<lparr>m_input_vector = erase_head (get_offset v) (m_input_vector a),
                           view = reset v\<rparr>))))"

section \<open>Values, types and the registry\<close>

text \<open>
  The object representation of an unsigned integer on the host, and its inverse. The host
  is taken to be little-endian, as in the spec's literal scenarios; nothing below depends
  on the order beyond \<open>le_word\<close> undoing \<open>le_bytes\<close>.
\<close>

definition le_bytes :: "'a::len word \<Rightarrow> byte list" where
  "le_bytes w = map (\<lambda>i. ucast (drop_bit (8 * i) w)) [0..<LENGTH('a) div 8]"

definition le_word :: "byte list \<Rightarrow> 'a::len word" where
  "le_word bs = foldr (\<lambda>b w. ucast b OR push_bit 8 w) bs 0"

text \<open>
  The values the dispatch layer accepts, by the handler that serializes them:
  \<^item> \<open>VScalar\<close>: a fundamental type or an enumeration, as its object representation
    (lines 735-764);
  \<^item> \<open>VArray\<close>: a C array or \<^verbatim>\<open>std::array\<close> (lines 1440-1491);
  \<^item> \<open>VTuple\<close>: \<^verbatim>\<open>std::pair\<close>, \<^verbatim>\<open>std::tuple\<close> (lines 1496-1563), and a class whose
    \<^verbatim>\<open>serialize\<close> archives its members in order, as \<^verbatim>\<open>point\<close> in the header's comment;
  \<^item> \<open>VSeq\<close>: a resizable container serialized item by item (lines 1229-1289);
  \<^item> \<open>VContig n data\<close>: a resizable contiguous container of scalars of \<open>n\<close> bytes each,
    given by its memory, so that \<^verbatim>\<open>size()\<close> is \<open>length data div n\<close> (lines 1295-1367);
  \<^item> \<open>VAssoc\<close>: an associative container, its items in iteration order (lines 1372-1435);
  \<^item> \<open>VPtr\<close>, \<open>VNull\<close>: an owning pointer to a non-polymorphic type (lines 1568-1600,
    1657-1689);
  \<^item> \<open>VPolyPtr k D members\<close>, \<open>VPolyNull\<close>: an owning pointer to a class derived from
    \<^verbatim>\<open>polymorphic\<close>, pointing to an object of dynamic type \<open>D\<close> (lines 1605-1652,
    1694-1741);
  \<^item> \<open>VPolyRef D members\<close>: \<^verbatim>\<open>polymorphic_wrapper\<close>, the result of \<^verbatim>\<open>as_polymorphic\<close>
    (lines 1748-1758).
  The types are the static types that direct loading.
\<close>

type_synonym tname = string

datatype ptr_kind = unique_ptr | shared_ptr

datatype ty =
    TScalar nat
  | TArray nat ty
  | TTuple "ty list"
  | TSeq ty
  | TContig nat
  | TAssoc ty
  | TPtr ptr_kind ty
  | TPolyPtr ptr_kind tname

datatype val =
    VScalar "byte list"
  | VArray "val list"
  | VTuple "val list"
  | VSeq "val list"
  | VContig nat "byte list"
  | VAssoc "val list"
  | VPtr ptr_kind val
  | VNull ptr_kind
  | VPolyPtr ptr_kind tname "val list"
  | VPolyNull ptr_kind
  | VPolyRef tname "val list"

text \<open>
  What the user's program declares. A class derived from \<^verbatim>\<open>polymorphic\<close> has its proper
  base classes and the types of its members, inherited ones first; its \<^verbatim>\<open>serialize\<close>
  archives the members in that order (as \<^verbatim>\<open>person\<close> and \<^verbatim>\<open>student\<close> in the header's
  comment, lines 78-133). An associative container's \<^verbatim>\<open>insert\<close> is the container's own;
  the handler leaves the policy (ordering, duplicates) to it.
\<close>

record class_decl =
  bases :: "tname list"
  field_tys :: "ty list"

record program =
  classes :: "tname \<Rightarrow> class_decl"
  container_insert :: "ty \<Rightarrow> val \<Rightarrow> val list \<Rightarrow> val list"

text \<open>
  \<^verbatim>\<open>dynamic_cast<T &>\<close> on an object of dynamic type \<open>D\<close> succeeds when \<open>T\<close> is \<open>D\<close>
  or one of its bases.
\<close>

definition dynamic_cast_ok :: "program \<Rightarrow> tname \<Rightarrow> tname \<Rightarrow> bool" where
  "dynamic_cast_ok P D T = (D = T \<or> T \<in> set (bases (classes P D)))"

text \<open>
  \<^verbatim>\<open>registry<Archive>\<close> (lines 1080-1224): one instance per archive type. A
  serialization method is a function pointer to the lambda that
  \<^verbatim>\<open>make_serialization_method<Archive, Type>\<close> returns (lines 618-642), so it is given by
  \<open>Type\<close>. \<^verbatim>\<open>typeid(Type).name()\<close> is the class name. \<^verbatim>\<open>unordered_map::emplace\<close>
  keeps an entry that is already there.
\<close>

record registry =
  m_serialization_id_to_method :: "id_type \<rightharpoonup> tname"
  m_type_information_to_serialization_id :: "string \<rightharpoonup> id_type"

definition emplace :: "'k \<Rightarrow> 'v \<Rightarrow> ('k \<rightharpoonup> 'v) \<Rightarrow> ('k \<rightharpoonup> 'v)" where
  "emplace k v m = (case m k of None \<Rightarrow> m(k \<mapsto> v) | Some _ \<Rightarrow> m)"

definition add :: "id_type \<Rightarrow> string \<Rightarrow> tname \<Rightarrow> registry \<Rightarrow> registry" where
  "add ident type_information_string serialization_method r =
     \<lparr>m_serialization_id_to_method =
        emplace ident serialization_method (m_serialization_id_to_method r),
      m_type_information_to_serialization_id =
        emplace type_information_string ident (m_type_information_to_serialization_id r)\<rparr>"

definition add_type :: "tname \<Rightarrow> id_type \<Rightarrow> registry \<Rightarrow> registry" where
  "add_type T ident r = add ident T T r"

definition empty_registry :: registry where
  "empty_registry = \<lparr>m_serialization_id_to_method = Map.empty,
                      m_type_information_to_serialization_id = Map.empty\<rparr>"

text \<open>
  \<^verbatim>\<open>register_types\<close> (lines 1797-1854) for one archive: the class derives from
  \<^verbatim>\<open>register_types<ExtraTypes...>\<close>, so the later pairs are registered first.
\<close>

fun register_types :: "(tname \<times> id_type) list \<Rightarrow> registry \<Rightarrow> registry" where
  "register_types [] r = r"
| "register_types ((T, ident) # extra_types) r = add_type T ident (register_types extra_types r)"

text \<open>
  \<^verbatim>\<open>binary::size_in_bytes\<close> (lines 514-517): the product is computed in \<^verbatim>\<open>std::size_t\<close>
  and returned as \<^verbatim>\<open>size_type\<close>.
\<close>

definition size_in_bytes :: "nat \<Rightarrow> size_type \<Rightarrow> size_type" where
  "size_in_bytes item_size m_count = of_nat (unat m_count * item_size)"

section \<open>Saving\<close>

lemma size_list_take_le: "size_list f (take n xs) \<le> size_list f xs"
proof (induction xs arbitrary: n)
  case Nil
  then show ?case by simp
next
  case (Cons x xs)
  then show ?case by (cases n) (simp_all add: le_SucI)
qed

text \<open>
  \<open>save\<close> is \<^verbatim>\<open>archive(item)\<close> on the output archive, by the handler of the item's type;
  \<open>save_items\<close> is \<^verbatim>\<open>archive(items...)\<close> and the range-for loops over a container;
  \<open>registry_serialize_save\<close> is \<^verbatim>\<open>registry::serialize\<close> for saving archives (lines
  1169-1201) and \<open>serialization_method_save P r T\<close> the method made for \<open>T\<close> (lines
  639-641), whose \<^verbatim>\<open>dynamic_cast\<close> throws \<^verbatim>\<open>std::bad_cast\<close> or yields the \<open>T\<close> part
  of the object.
\<close>

function (sequential) save :: "program \<Rightarrow> registry \<Rightarrow> val \<Rightarrow> lazy_vector_memory_output_archive action"
and save_items :: "program \<Rightarrow> registry \<Rightarrow> val list \<Rightarrow> lazy_vector_memory_output_archive action"
and registry_serialize_save ::
   "program \<Rightarrow> registry \<Rightarrow> tname \<Rightarrow> val list \<Rightarrow> lazy_vector_memory_output_archive action"
and serialization_method_save ::
   "program \<Rightarrow> registry \<Rightarrow> tname \<Rightarrow> tname \<Rightarrow> val list \<Rightarrow> lazy_vector_memory_output_archive action"
where
  "save P r (VScalar item) a = (None, serialize_item_out item a)"
| "save P r (VArray items) a = save_items P r items a"
| "save P r (VTuple items) a = save_items P r items a"
| "save P r (VSeq items) a =
     save_items P r items (serialize_item_out (le_bytes (of_nat (length items) :: size_type)) a)"
| "save P r (VContig n data) a =
     (let sz = (of_nat (length data div n) :: size_type);
          a1 = serialize_item_out (le_bytes sz) a
      in if sz = 0 then (None, a1)
         else (None, serialize_binary_out data
                 (size_in_bytes n (of_nat (length data div n))) a1))"
| "save P r (VAssoc items) a =
     save_items P r items (serialize_item_out (le_bytes (of_nat (length items) :: size_type)) a)"
| "save P r (VNull k) a = (Some attempt_to_serialize_null_pointer_error, a)"
| "save P r (VPtr k v) a = save P r v a"
| "save P r (VPolyNull k) a = (Some attempt_to_serialize_null_pointer_error, a)"
| "save P r (VPolyPtr k D members) a = registry_serialize_save P r D members a"
| "save P r (VPolyRef D members) a = registry_serialize_save P r D members a"
| "save_items P r [] a = (None, a)"
| "save_items P r (item # items) a =
     (case save P r item a of
        (Some e, a') \<Rightarrow> (Some e, a')
      | (None, a') \<Rightarrow> save_items P r items a')"
| "registry_serialize_save P r D members a =
     (case m_type_information_to_serialization_id r D of
        None \<Rightarrow> (Some undeclared_polymorphic_type_error, a)
      | Some ident \<Rightarrow>
          (case m_serialization_id_to_method r ident of
             None \<Rightarrow> (Some undeclared_polymorphic_type_error, a)
           | Some T \<Rightarrow> serialization_method_save P r T D members (serialize_item_out (le_bytes ident) a)))"
| "serialization_method_save P r T D members a =
     (if dynamic_cast_ok P D T
      then save_items P r (take (length (field_tys (classes P T))) members) a
      else (Some bad_cast, a))"
  by pat_completeness auto

termination
proof (relation "measure (case_sum
    (case_sum (\<lambda>(P, r, v, a). 4 * size v) (\<lambda>(P, r, vs, a). 4 * size_list size vs + 1))
    (case_sum (\<lambda>(P, r, D, vs, a). 4 * size_list size vs + 3)
              (\<lambda>(P, r, T, D, vs, a). 4 * size_list size vs + 2)))", goal_cases)
  case (12 P r T D members a)
  have "size_list size (take (length (field_tys (classes P T))) members) \<le> size_list size members"
    by (rule size_list_take_le)
  then show ?case by simp
qed simp_all

section \<open>Loading\<close>

text \<open>
  A value-initialised object of each type: what \<^verbatim>\<open>access::make_unique\<close>,
  \<^verbatim>\<open>access::placement_new\<close> and \<^verbatim>\<open>resize\<close> construct.
\<close>

fun default_val :: "ty \<Rightarrow> val" where
  "default_val (TScalar n) = VScalar (replicate n 0)"
| "default_val (TArray n t) = VArray (replicate n (default_val t))"
| "default_val (TTuple ts) = VTuple (map default_val ts)"
| "default_val (TSeq t) = VSeq []"
| "default_val (TContig n) = VContig n []"
| "default_val (TAssoc t) = VAssoc []"
| "default_val (TPtr k t) = VNull k"
| "default_val (TPolyPtr k S) = VPolyNull k"

definition container_resize :: "nat \<Rightarrow> 'a \<Rightarrow> 'a list \<Rightarrow> 'a list" where
  "container_resize n x xs = take n xs @ replicate (n - length xs) x"

text \<open>
  \<open>load\<close> is \<^verbatim>\<open>archive(item)\<close> on the view archive for a destination of the given static
  type; the state is the destination and the archive. \<open>load_items\<close> is
  \<^verbatim>\<open>archive(items...)\<close>, \<open>load_each\<close> the range-for loop over a container or array,
  \<open>load_inserting\<close> the counting loop of the associative handler and
  \<open>registry_serialize_load\<close> is \<^verbatim>\<open>registry::serialize\<close> for loading archives (lines
  1136-1160) with the method it calls (lines 623-627).

  The member types of a class come from the program, not from the type being loaded, so
  the recursion is bounded by \<open>fuel\<close>: one unit for each object built through the
  registry, \<open>out_of_fuel\<close> when none is left. A destination that does not have the
  static type (which the C++ compiler excludes) gives \<open>ill_typed\<close>.
\<close>

function (sequential) load :: "nat \<Rightarrow> program \<Rightarrow> registry \<Rightarrow> ty \<Rightarrow> (val \<times> memory_view_input_archive) action"
and load_items ::
  "nat \<Rightarrow> program \<Rightarrow> registry \<Rightarrow> ty list \<Rightarrow> (val list \<times> memory_view_input_archive) action"
and load_each ::
  "nat \<Rightarrow> program \<Rightarrow> registry \<Rightarrow> ty \<Rightarrow> (val list \<times> memory_view_input_archive) action"
and load_inserting ::
  "nat \<Rightarrow> program \<Rightarrow> registry \<Rightarrow> ty \<Rightarrow> nat \<Rightarrow> (val list \<times> memory_view_input_archive) action"
and registry_serialize_load ::
  "nat \<Rightarrow> program \<Rightarrow> registry \<Rightarrow> ((tname \<times> val list) option \<times> memory_view_input_archive) action"
where
  "load fuel P r (TScalar n) (object, a) =
     (case object of
        VScalar item \<Rightarrow>
          (case serialize_item_in (item, a) of (e, (item', a')) \<Rightarrow> (e, (VScalar item', a')))
      | _ \<Rightarrow> (Some ill_typed, (object, a)))"
| "load fuel P r (TArray n t) (object, a) =
     (case object of
        VArray items \<Rightarrow>
          (case load_each fuel P r t (items, a) of (e, (items', a')) \<Rightarrow> (e, (VArray items', a')))
      | _ \<Rightarrow> (Some ill_typed, (object, a)))"
| "load fuel P r (TTuple ts) (object, a) =
     (case object of
        VTuple items \<Rightarrow>
          (case load_items fuel P r ts (items, a) of (e, (items', a')) \<Rightarrow> (e, (VTuple items', a')))
      | _ \<Rightarrow> (Some ill_typed, (object, a)))"
| "load fuel P r (TSeq t) (object, a) =
     (case object of
        VSeq items \<Rightarrow>
          (case serialize_item_in (le_bytes (0 :: size_type), a) of
             (Some e, (_, a')) \<Rightarrow> (Some e, (VSeq items, a'))
           | (None, (sz, a')) \<Rightarrow>
               (case load_each fuel P r t
                       (container_resize (unat (le_word sz :: size_type)) (default_val t) items, a') of
                  (e, (items', a'')) \<Rightarrow> (e, (VSeq items', a''))))
      | _ \<Rightarrow> (Some ill_typed, (object, a)))"
| "load fuel P r (TContig n) (object, a) =
     (case object of
        VContig m data \<Rightarrow>
          (case serialize_item_in (le_bytes (0 :: size_type), a) of
             (Some e, (_, a')) \<Rightarrow> (Some e, (VContig n data, a'))
           | (None, (sz, a')) \<Rightarrow>
               (let data1 = vector_resize (unat (le_word sz :: size_type) * n) data
                in if (le_word sz :: size_type) = 0 then (None, (VContig n data1, a'))
                   else (case serialize_binary_in (size_in_bytes n (of_nat (length data1 div n)))
                                (data1, a') of
                           (e, (data2, a'')) \<Rightarrow> (e, (VContig n data2, a'')))))
      | _ \<Rightarrow> (Some ill_typed, (object, a)))"
| "load fuel P r (TAssoc t) (object, a) =
     (case object of
        VAssoc items \<Rightarrow>
          (case serialize_item_in (le_bytes (0 :: size_type), a) of
             (Some e, (_, a')) \<Rightarrow> (Some e, (VAssoc items, a'))
           | (None, (sz, a')) \<Rightarrow>
               (case load_inserting fuel P r t (unat (le_word sz :: size_type)) (items, a') of
                  (e, (items', a'')) \<Rightarrow> (e, (VAssoc items', a''))))
      | _ \<Rightarrow> (Some ill_typed, (object, a)))"
| "load fuel P r (TPtr k t) (object, a) =
     (case load fuel P r t (default_val t, a) of
        (Some e, (_, a')) \<Rightarrow> (Some e, (object, a'))
      | (None, (loaded_object, a')) \<Rightarrow> (None, (VPtr k loaded_object, a')))"
| "load fuel P r (TPolyPtr k S) (object, a) =
     (case registry_serialize_load fuel P r (None, a) of
        (Some e, (_, a')) \<Rightarrow> (Some e, (object, a'))
      | (None, (None, a')) \<Rightarrow> (Some undefined_behaviour, (object, a'))
      | (None, (Some (T, members), a')) \<Rightarrow>
          if dynamic_cast_ok P T S then (None, (VPolyPtr k T members, a'))
          else (Some polymorphic_type_mismatch_error, (object, a')))"
| "load_items fuel P r [] (items, a) = (None, (items, a))"
| "load_items fuel P r (t # ts) (items, a) =
     (case items of
        [] \<Rightarrow> (Some ill_typed, (items, a))
      | item # rest \<Rightarrow>
          (case load fuel P r t (item, a) of
             (Some e, (item', a')) \<Rightarrow> (Some e, (item' # rest, a'))
           | (None, (item', a')) \<Rightarrow>
               (case load_items fuel P r ts (rest, a') of
                  (e, (rest', a'')) \<Rightarrow> (e, (item' # rest', a'')))))"
| "load_each fuel P r t ([], a) = (None, ([], a))"
| "load_each fuel P r t (item # items, a) =
     (case load fuel P r t (item, a) of
        (Some e, (item', a')) \<Rightarrow> (Some e, (item' # items, a'))
      | (None, (item', a')) \<Rightarrow>
          (case load_each fuel P r t (items, a') of
             (e, (items', a'')) \<Rightarrow> (e, (item' # items', a''))))"
| "load_inserting fuel P r t 0 (items, a) = (None, (items, a))"
| "load_inserting fuel P r t (Suc i) (items, a) =
     (case load fuel P r t (default_val t, a) of
        (Some e, (_, a')) \<Rightarrow> (Some e, (items, a'))
      | (None, (item, a')) \<Rightarrow> load_inserting fuel P r t i (container_insert P t item items, a'))"
| "registry_serialize_load 0 P r (object, a) = (Some out_of_fuel, (object, a))"
| "registry_serialize_load (Suc fuel) P r (object, a) =
     (case serialize_item_in (le_bytes (0 :: id_type), a) of
        (Some e, (_, a')) \<Rightarrow> (Some e, (object, a'))
      | (None, (ident, a')) \<Rightarrow>
          (case m_serialization_id_to_method r (le_word ident) of
             None \<Rightarrow> (Some undeclared_polymorphic_type_error, (object, a'))
           | Some T \<Rightarrow>
               (case load_items fuel P r (field_tys (classes P T))
                       (map default_val (field_tys (classes P T)), a') of
                  (Some e, (_, a'')) \<Rightarrow> (Some e, (object, a''))
                | (None, (members, a'')) \<Rightarrow> (None, (Some (T, members), a'')))))"
  by pat_completeness auto

termination
  by (relation "measures [
      case_sum (case_sum (\<lambda>(fuel, P, r, t, s). fuel) (\<lambda>(fuel, P, r, ts, s). fuel))
        (case_sum (\<lambda>(fuel, P, r, t, s). fuel)
          (case_sum (\<lambda>(fuel, P, r, t, i, s). fuel) (\<lambda>(fuel, P, r, s). fuel))),
      case_sum (case_sum (\<lambda>(fuel, P, r, t, s). 2 * size t + 1)
                         (\<lambda>(fuel, P, r, ts, s). 2 * size_list size ts + 2))
        (case_sum (\<lambda>(fuel, P, r, t, s). 2 * size t + 2)
          (case_sum (\<lambda>(fuel, P, r, t, i, s). 2 * size t + 2) (\<lambda>(fuel, P, r, s). 0))),
      case_sum (case_sum (\<lambda>(fuel, P, r, t, s). 0) (\<lambda>(fuel, P, r, ts, s). 0))
        (case_sum (\<lambda>(fuel, P, r, t, s). length (fst s))
          (case_sum (\<lambda>(fuel, P, r, t, i, s). i) (\<lambda>(fuel, P, r, s). 0)))]")
    auto

section \<open>The example of the header\<close>

text \<open>
  The classes of the header's comment (lines 78-140): \<^verbatim>\<open>person\<close> with a name,
  \<^verbatim>\<open>student\<close> derived from it with a university, both strings, registered under the
  ids of \<^verbatim>\<open>"v1::person"\<close> and \<^verbatim>\<open>"v1::student"\<close>. The associative containers of the
  example program are \<^verbatim>\<open>std::set\<close> and \<^verbatim>\<open>std::map\<close> with an unsigned integer key
  (the item itself, or the first component of a pair): \<^verbatim>\<open>insert\<close> keeps the items in
  ascending order of the key and leaves the container as it is when the key is there.
\<close>

definition unsigned_value :: "byte list \<Rightarrow> nat" where
  "unsigned_value bs = foldr (\<lambda>b n. unat b + 256 * n) bs 0"

definition key_of :: "val \<Rightarrow> nat" where
  "key_of v = (case v of
       VScalar bs \<Rightarrow> unsigned_value bs
     | VTuple (VScalar bs # _) \<Rightarrow> unsigned_value bs
     | _ \<Rightarrow> 0)"

definition set_insert :: "val \<Rightarrow> val list \<Rightarrow> val list" where
  "set_insert x xs = (if key_of x \<in> key_of ` set xs then xs else insort_key key_of x xs)"

definition example_program :: program where
  "example_program =
     \<lparr>classes = (\<lambda>n. if n = ''student'' then \<lparr>bases = [''person''], field_tys = [TContig 1, TContig 1]\<rparr>
                      else if n = ''person'' then \<lparr>bases = [], field_tys = [TContig 1]\<rparr>
                      else \<lparr>bases = [], field_tys = []\<rparr>),
      container_insert = (\<lambda>t. set_insert)\<rparr>"

definition example_types :: "(tname \<times> id_type) list" where
  "example_types = [(''person'', 0xf798d7655fbaf63b), (''student'', 0x8278ec9ea7e16526)]"

section \<open>Reading and writing packs of fundamental items\<close>

text \<open>
  The bytes written so far are the first \<open>m_size\<close> bytes of the vector; between two
  user-visible calls the vector may be longer (the growth policy), never shorter.
\<close>

definition logical :: "lazy_vector_memory_output_archive \<Rightarrow> byte list" where
  "logical a = take (m_size a) (m_output a)"

definition fitted :: "lazy_vector_memory_output_archive \<Rightarrow> bool" where
  "fitted a = (m_size a \<le> length (m_output a))"

text \<open>The values a pack of reads fetches from offset \<open>off\<close> on: consecutive runs of the input.\<close>

fun fetch_all :: "byte list list \<Rightarrow> nat \<Rightarrow> byte list \<Rightarrow> byte list list" where
  "fetch_all [] off input = []"
| "fetch_all (item # items) off input =
     take (length item) (drop off input) # fetch_all items (off + length item) input"

lemma and_then_simps:
  "f s = (None, s') \<Longrightarrow> and_then f g s = g s'"
  "f s = (Some e, s') \<Longrightarrow> and_then f g s = (Some e, s')"
  by (simp_all add: and_then_def)


lemma serialize_items_in_append:
  "m_offset a + sum_list (map length pre) \<le> m_input_size a \<Longrightarrow>
   serialize_items_in (pre @ rest, a) =
     (case serialize_items_in (rest, a\<lparr>m_offset := m_offset a + sum_list (map length pre)\<rparr>) of
        (r, (rest', a')) \<Rightarrow> (r, (fetch_all pre (m_offset a) (m_input a) @ rest', a')))"
proof (induction pre arbitrary: a)
  case Nil
  then show ?case by (simp split: prod.splits)
next
  case (Cons item pre)
  let ?a' = "a\<lparr>m_offset := m_offset a + length item\<rparr>"
  from Cons.prems have fit: "\<not> m_input_size a < length item + m_offset a" by simp
  from Cons.prems have "m_offset ?a' + sum_list (map length pre) \<le> m_input_size ?a'" by simp
  from Cons.IH [OF this] fit show ?case
    by (simp add: serialize_item_in_def ac_simps split: prod.splits)
qed

lemma serialize_items_in_all:
  "m_offset a + sum_list (map length items) \<le> m_input_size a \<Longrightarrow>
   serialize_items_in (items, a) =
     (None, (fetch_all items (m_offset a) (m_input a),
             a\<lparr>m_offset := m_offset a + sum_list (map length items)\<rparr>))"
  using serialize_items_in_append [of a items "[]"] by simp

lemma serialize_items_in_None:
  "serialize_items_in (items, a) = (None, (items', a')) \<Longrightarrow>
   m_offset a \<le> m_input_size a \<Longrightarrow>
   m_offset a + sum_list (map length items) \<le> m_input_size a"
proof (induction items arbitrary: a items' a')
  case Nil
  then show ?case by simp
next
  case (Cons item items)
  from Cons.prems have fit: "\<not> m_input_size a < length item + m_offset a"
    by (auto simp: serialize_item_in_def split: if_splits)
  with Cons.prems obtain its a'' where
    "serialize_items_in (items, a\<lparr>m_offset := m_offset a + length item\<rparr>) = (None, (its, a''))"
    by (auto simp: serialize_item_in_def split: prod.splits)
  from Cons.IH [OF this] fit show ?case by simp
qed

lemma length_fetch_all:
  "off + sum_list (map length items) \<le> length input \<Longrightarrow>
   map length (fetch_all items off input) = map length items"
proof (induction items arbitrary: off)
  case Nil
  then show ?case by simp
next
  case (Cons item items)
  from Cons.prems have "off + length item + sum_list (map length items) \<le> length input" by simp
  from Cons.IH [OF this] Cons.prems show ?case by simp
qed

lemma concat_fetch_all:
  "off + sum_list (map length items) \<le> length input \<Longrightarrow>
   concat (fetch_all items off input) = take (sum_list (map length items)) (drop off input)"
proof (induction items arbitrary: off)
  case Nil
  then show ?case by simp
next
  case (Cons item items)
  from Cons.prems have "off + length item + sum_list (map length items) \<le> length input" by simp
  from Cons.IH [OF this] show ?case
    by (simp add: take_add ac_simps)
qed

lemma serialize_items_in_fails:
  assumes fit: "sum_list (map length pre) \<le> length input"
    and bad: "length input < sum_list (map length pre) + length item"
  shows "serialize_items_in (pre @ item # post, memory_view_input_archive input (length input)) =
     (Some out_of_range,
      (fetch_all pre 0 input @ item # post,
       \<lparr>m_input = input, m_input_size = length input, m_offset = sum_list (map length pre)\<rparr>))"
proof -
  let ?v = "memory_view_input_archive input (length input)"
  from fit have "m_offset ?v + sum_list (map length pre) \<le> m_input_size ?v"
    by (simp add: memory_view_input_archive_def)
  from serialize_items_in_append [OF this, of "item # post"] bad show ?thesis
    by (simp add: memory_view_input_archive_def serialize_item_in_def ac_simps)
qed

lemma take_vector_resize:
  "n \<le> length xs \<Longrightarrow> n \<le> k \<Longrightarrow> take n (vector_resize k xs) = take n xs"
  by (simp add: vector_resize_def)

lemma serialize_item_out_logical:
  assumes "fitted a"
  shows "fitted (serialize_item_out item a)"
    and "logical (serialize_item_out item a) = logical a @ item"
    and "m_size (serialize_item_out item a) = m_size a + length item"
proof -
  define n where "n = m_size a + length item"
  define out where "out = (if n > length (m_output a)
    then vector_resize (n * 3 div 2) (m_output a) else m_output a)"
  from assms have sz: "m_size a \<le> length (m_output a)" by (simp add: fitted_def)
  have "n \<le> n * 3 div 2" by arith
  then have len: "n \<le> length out" by (simp add: out_def vector_resize_def)
  have tk: "take (m_size a) out = take (m_size a) (m_output a)"
    using sz by (simp add: out_def vector_resize_def)
  have step: "serialize_item_out item a =
      \<lparr>m_output = take (m_size a) out @ item @ drop n out, m_size = n\<rparr>"
    by (simp add: serialize_item_out_def Let_def copy_n_def out_def n_def)
  from len have lt: "length (take (m_size a) out) = m_size a" by (simp add: n_def)
  show "m_size (serialize_item_out item a) = m_size a + length item"
    by (simp add: step n_def)
  from len lt show "fitted (serialize_item_out item a)"
    by (simp add: fitted_def step n_def)
  from lt have "take n (take (m_size a) out @ item @ drop n out) = take (m_size a) out @ item"
    by (simp add: n_def)
  with tk show "logical (serialize_item_out item a) = logical a @ item"
    by (simp add: logical_def step)
qed

lemma serialize_items_out_logical:
  "fitted a \<Longrightarrow>
   fst (serialize_items_out items a) = None \<and>
   fitted (snd (serialize_items_out items a)) \<and>
   logical (snd (serialize_items_out items a)) = logical a @ concat items \<and>
   m_size (snd (serialize_items_out items a)) = m_size a + length (concat items)"
proof (induction items arbitrary: a)
  case Nil
  then show ?case by simp
next
  case (Cons item items)
  from Cons.IH [OF serialize_item_out_logical(1) [OF Cons.prems, of item]]
  show ?case
    by (simp add: serialize_item_out_logical(2,3) [OF Cons.prems])
qed

lemma fit_vector_logical:
  "fitted a \<Longrightarrow> fit_vector a = \<lparr>m_output = logical a, m_size = m_size a\<rparr>"
  by (simp add: fit_vector_def fitted_def logical_def vector_resize_def)

section \<open>Saving only appends\<close>

lemma serialize_binary_out_logical:
  assumes "fitted a" and "unat sz \<le> length data"
  shows "fitted (serialize_binary_out data sz a)"
    and "logical (serialize_binary_out data sz a) = logical a @ take (unat sz) data"
    and "m_size (serialize_binary_out data sz a) = m_size a + unat sz"
proof -
  have eq: "serialize_binary_out data sz a = serialize_item_out (take (unat sz) data) a"
    using assms(2) by (simp add: serialize_binary_out_def serialize_item_out_def copy_n_def min_def)
  show "fitted (serialize_binary_out data sz a)"
    and "logical (serialize_binary_out data sz a) = logical a @ take (unat sz) data"
    and "m_size (serialize_binary_out data sz a) = m_size a + unat sz"
    using serialize_item_out_logical [OF assms(1), of "take (unat sz) data"] assms(2)
    by (simp_all add: eq)
qed

lemma size_in_bytes_le: "0 < n \<Longrightarrow> unat (size_in_bytes n (of_nat (length data div n))) \<le> length data"
proof -
  assume n: "0 < n"
  have "unat (size_in_bytes n (of_nat (length data div n))) \<le> unat (of_nat (length data div n) :: size_type) * n"
    unfolding size_in_bytes_def by (metis unat_of_nat mod_less_eq_dividend)
  also have "\<dots> \<le> (length data div n) * n"
    by (simp add: unat_of_nat)
  also have "\<dots> \<le> length data" by simp
  finally show ?thesis .
qed

text \<open>
  The archive \<open>a'\<close> is \<open>a\<close> with bytes appended: saving never rewrites a byte already
  written, whether it returns or throws.
\<close>

definition appends :: "lazy_vector_memory_output_archive \<Rightarrow> lazy_vector_memory_output_archive \<Rightarrow> bool" where
  "appends a a' = (fitted a' \<and> (\<exists>bs. logical a' = logical a @ bs \<and> m_size a' = m_size a + length bs))"

lemma appends_refl: "fitted a \<Longrightarrow> appends a a"
  by (simp add: appends_def)

lemma appends_trans: "appends a b \<Longrightarrow> appends b c \<Longrightarrow> appends a c"
  by (auto simp: appends_def)

lemma appends_item: "fitted a \<Longrightarrow> appends a (serialize_item_out item a)"
  by (simp add: appends_def serialize_item_out_logical)

lemma appends_binary:
  "fitted a \<Longrightarrow> unat sz \<le> length data \<Longrightarrow> appends a (serialize_binary_out data sz a)"
  by (simp add: appends_def serialize_binary_out_logical)

lemma save_appends:
  "fitted a \<Longrightarrow> appends a (snd (save P r v a))"
  "fitted a \<Longrightarrow> appends a (snd (save_items P r vs a))"
  "fitted a \<Longrightarrow> appends a (snd (registry_serialize_save P r D ms a))"
  "fitted a \<Longrightarrow> appends a (snd (serialization_method_save P r T D ms a))"
proof (induction P r v a and P r vs a and P r D ms a and P r T D ms a
       rule: save_save_items_registry_serialize_save_serialization_method_save.induct)
  case (1 P r item a)
  then show ?case by (simp add: appends_item)
next
  case (4 P r items a)
  from 4(2) have f: "fitted (serialize_item_out (le_bytes (word_of_nat (length items) :: size_type)) a)"
    by (simp add: serialize_item_out_logical)
  from appends_trans [OF appends_item [OF 4(2)] 4(1) [OF f]] show ?case by simp
next
  case (5 P r n data a)
  define sz where "sz = (word_of_nat (length data div n) :: size_type)"
  define a1 where "a1 = serialize_item_out (le_bytes sz) a"
  from 5 have a1: "appends a a1" and f1: "fitted a1"
    by (simp_all add: a1_def appends_item serialize_item_out_logical)
  show ?case
  proof (cases "sz = 0")
    case True
    with a1 show ?thesis by (simp add: sz_def a1_def)
  next
    case False
    then have "0 < n" by (cases "n = 0") (simp_all add: sz_def)
    then have "appends a1 (serialize_binary_out data (size_in_bytes n sz) a1)"
      unfolding sz_def using f1
      by (simp add: appends_binary size_in_bytes_le)
    with a1 False show ?thesis
      by (auto simp: sz_def a1_def Let_def intro: appends_trans)
  qed
next
  case (6 P r items a)
  from 6(2) have f: "fitted (serialize_item_out (le_bytes (word_of_nat (length items) :: size_type)) a)"
    by (simp add: serialize_item_out_logical)
  from appends_trans [OF appends_item [OF 6(2)] 6(1) [OF f]] show ?case by simp
next
  case (13 P r item items a)
  show ?case
  proof (cases "save P r item a")
    case (Pair e a')
    from 13(1) [OF 13(3)] Pair have a': "appends a a'" by simp
    show ?thesis
    proof (cases e)
      case None
      from Pair None a' 13(2) have "appends a' (snd (save_items P r items a'))"
        by (simp add: appends_def)
      with a' Pair None show ?thesis by (auto intro: appends_trans)
    next
      case (Some x)
      with Pair a' show ?thesis by simp
    qed
  qed
next
  case (14 P r D ms a)
  show ?case
  proof (cases "m_type_information_to_serialization_id r D")
    case None
    with 14(2) show ?thesis by (simp add: appends_refl)
  next
    case (Some ident)
    show ?thesis
    proof (cases "m_serialization_id_to_method r ident")
      case None
      with Some 14(2) show ?thesis by (simp add: appends_refl)
    next
      case (Some T)
      from 14(2) have f: "fitted (serialize_item_out (le_bytes ident) a)"
        by (simp add: serialize_item_out_logical)
      from 14(1) [OF \<open>m_type_information_to_serialization_id r D = Some ident\<close> Some f]
        appends_item [OF 14(2), of "le_bytes ident"]
      show ?thesis using Some \<open>m_type_information_to_serialization_id r D = Some ident\<close>
        by (auto intro: appends_trans)
    qed
  qed
qed (simp_all add: appends_refl)

section \<open>Integers as bytes\<close>

lemma low_byte_rest:
  "ucast (ucast w :: byte) OR push_bit 8 (drop_bit 8 w) = (w :: 'a::len word)"
proof (rule bit_word_eqI)
  fix n assume "n < LENGTH('a)"
  then show "bit (ucast (ucast w :: byte) OR push_bit 8 (drop_bit 8 w)) n = bit w n"
    by (cases "n < 8") (auto simp add: bit_simps)
qed

lemma le_bytes_32: "le_bytes (w :: 32 word) = [ucast w, ucast (drop_bit 8 w), ucast (drop_bit 16 w), ucast (drop_bit 24 w)]"
  by (simp add: le_bytes_def upt_rec)

lemma le_word_le_bytes_32: "le_word (le_bytes (w :: 32 word)) = w"
proof -
  have d: "drop_bit 32 w = 0" by (simp add: drop_bit_eq_zero_iff_not_bit_last) 
  show ?thesis
    using low_byte_rest [of w] low_byte_rest [of "drop_bit 8 w"] low_byte_rest [of "drop_bit 16 w"]
      low_byte_rest [of "drop_bit 24 w"] d
    by (simp add: le_bytes_32 le_word_def)
qed

lemma le_bytes_64: "le_bytes (w :: 64 word) = [ucast w, ucast (drop_bit 8 w), ucast (drop_bit 16 w), ucast (drop_bit 24 w),
   ucast (drop_bit 32 w), ucast (drop_bit 40 w), ucast (drop_bit 48 w), ucast (drop_bit 56 w)]"
  by (simp add: le_bytes_def upt_rec)


lemma length_le_bytes_64: "length (le_bytes (w :: id_type)) = 8"
  by (simp add: le_bytes_def)

lemma length_le_bytes_32: "length (le_bytes (w :: size_type)) = 4"
  by (simp add: le_bytes_def)

section \<open>Loading only advances the cursor\<close>

text \<open>
  Loading never changes the borrowed bytes or their count, and never moves the cursor
  back, whether it returns or throws.
\<close>

definition advances :: "memory_view_input_archive \<Rightarrow> memory_view_input_archive \<Rightarrow> bool" where
  "advances a a' = (m_input a' = m_input a \<and> m_input_size a' = m_input_size a \<and> m_offset a \<le> m_offset a')"

lemma advances_refl [simp]: "advances a a"
  by (simp add: advances_def)

lemma advances_trans: "advances a b \<Longrightarrow> advances b c \<Longrightarrow> advances a c"
  by (auto simp: advances_def)

lemma advances_item: "serialize_item_in (item, a) = (e, (item', a')) \<Longrightarrow> advances a a'"
  by (auto simp: serialize_item_in_def advances_def split: if_splits)

lemma advances_binary: "serialize_binary_in sz (data, a) = (e, (data', a')) \<Longrightarrow> advances a a'"
  by (auto simp: serialize_binary_in_def advances_def split: if_splits)

lemma load_advances:
  "load fuel P r t s = (e, (d', a')) \<Longrightarrow> advances (snd s) a'"
  "load_items fuel P r ts ss = (e, (ds', a')) \<Longrightarrow> advances (snd ss) a'"
  "load_each fuel P r t ss = (e, (ds', a')) \<Longrightarrow> advances (snd ss) a'"
  "load_inserting fuel P r t i ss = (e, (ds', a')) \<Longrightarrow> advances (snd ss) a'"
  "registry_serialize_load fuel P r os = (e, (ob', a')) \<Longrightarrow> advances (snd os) a'"
proof (induction fuel P r t s and fuel P r ts ss and fuel P r t ss and fuel P r t i ss and fuel P r os
    arbitrary: e d' a' and e ds' a' and e ds' a' and e ds' a' and e ob' a'
    rule: load_load_items_load_each_load_inserting_registry_serialize_load.induct)
  case (1 fuel P r n object a)
  then show ?case
    by (auto split: val.splits prod.splits dest: advances_item)
next
  case (2 fuel P r n t object a)
  then show ?case
    by (auto split: val.splits prod.splits)
next
  case (3 fuel P r ts object a)
  then show ?case by (auto split: val.splits prod.splits)
next
  case (4 fuel P r t object a)
  then show ?case
    by (auto split: val.splits prod.splits option.splits dest!: advances_item intro: advances_trans)
next
  case (5 fuel P r n object a)
  then show ?case 
    by (auto simp: Let_def split: val.splits prod.splits option.splits if_splits dest!: advances_item advances_binary intro: advances_trans)
next
  case (6 fuel P r t object a)
  then show ?case
    by (auto split: val.splits prod.splits option.splits dest!: advances_item intro: advances_trans)
next
  case (7 fuel P r k t object a)
  then show ?case by (auto split: prod.splits option.splits)
next
  case (8 fuel P r k S object a)
  then show ?case by (auto split: prod.splits option.splits if_splits)
next
  case (9 fuel P r items a)
  then show ?case by simp
next
  case (10 fuel P r t ts items a)
  show ?case
  proof (cases items)
    case Nil
    with 10(3) show ?thesis by simp
  next
    case (Cons item rest)
    obtain e1 item' a1 where l: "load fuel P r t (item, a) = (e1, (item', a1))"
      by (cases "load fuel P r t (item, a)") auto
    from 10(1) [OF Cons l] have adv1: "advances a a1" by simp
    show ?thesis
    proof (cases e1)
      case (Some x)
      with 10(3) Cons l adv1 show ?thesis by simp
    next
      case None
      obtain e2 rest' a2 where l2: "load_items fuel P r ts (rest, a1) = (e2, (rest', a2))"
        by (cases "load_items fuel P r ts (rest, a1)") auto
      from 10(2) [OF Cons l [unfolded None, symmetric] refl refl l2] have "advances a1 a2" by simp
      with adv1 have "advances a a2" by (rule advances_trans)
      with 10(3) Cons l None l2 show ?thesis by simp
    qed
  qed
next
  case (12 fuel P r t item items a)
  obtain e1 item' a1 where l: "load fuel P r t (item, a) = (e1, (item', a1))"
    by (cases "load fuel P r t (item, a)") auto
  from 12(1) [OF l] have adv1: "advances a a1" by simp
  show ?case
  proof (cases e1)
    case (Some x)
    with 12(3) l adv1 show ?thesis by simp
  next
    case None
    obtain e2 rest' a2 where l2: "load_each fuel P r t (items, a1) = (e2, (rest', a2))"
      by (cases "load_each fuel P r t (items, a1)") auto
    from 12(2) [OF l [unfolded None, symmetric] refl refl l2] have "advances a1 a2" by simp
    with adv1 have "advances a a2" by (rule advances_trans)
    with 12(3) l None l2 show ?thesis by simp
  qed
next
  case (14 fuel P r t i items a)
  obtain e1 item' a1 where l: "load fuel P r t (default_val t, a) = (e1, (item', a1))"
    by (cases "load fuel P r t (default_val t, a)") auto
  from 14(1) [OF l] have adv1: "advances a a1" by simp
  show ?case
  proof (cases e1)
    case (Some x)
    with 14(3) l adv1 show ?thesis by simp
  next
    case None
    from 14(3) l None
    have l2: "load_inserting fuel P r t i (container_insert P t item' items, a1) = (e, (ds', a'))"
      by simp
    from 14(2) [OF l [unfolded None, symmetric] refl refl l2] have "advances a1 a'" by simp
    with adv1 show ?thesis by (auto intro: advances_trans)
  qed
next
  case (16 fuel P r object a)
  obtain e1 ident a1 where l: "serialize_item_in (le_bytes (0 :: id_type), a) = (e1, (ident, a1))"
    by (cases "serialize_item_in (le_bytes (0 :: id_type), a)") auto
  from advances_item [OF l] have adv1: "advances a a1" .
  show ?case
  proof (cases e1)
    case (Some x)
    with 16(2) l adv1 show ?thesis by simp
  next
    case None
    show ?thesis
    proof (cases "m_serialization_id_to_method r (le_word ident)")
      case None
      with 16(2) l \<open>e1 = None\<close> adv1 show ?thesis by simp
    next
      case (Some T)
      obtain e2 ms a2 where l2: "load_items fuel P r (field_tys (classes P T))
          (map default_val (field_tys (classes P T)), a1) = (e2, (ms, a2))"
        by (cases "load_items fuel P r (field_tys (classes P T))
          (map default_val (field_tys (classes P T)), a1)") auto
      from 16(1) [OF l [unfolded None, symmetric] refl refl Some l2] have "advances a1 a2" by simp
      with adv1 have "advances a a2" by (rule advances_trans)
      with 16(2) l None Some l2 show ?thesis by (cases e2) simp_all
    qed
  qed
qed simp_all

lemma registry_serialize_load_consumes_id:
  assumes "registry_serialize_load fuel P r (ob, a) = (None, (ob', a'))"
  shows "m_offset a + 8 \<le> m_offset a'"
proof (cases fuel)
  case 0
  with assms show ?thesis by simp
next
  case (Suc f)
  obtain e1 ident a1 where l: "serialize_item_in (le_bytes (0 :: id_type), a) = (e1, (ident, a1))"
    by (cases "serialize_item_in (le_bytes (0 :: id_type), a)") auto
  with assms Suc have e1: "e1 = None" by (cases e1) simp_all
  with l have a1: "m_offset a1 = m_offset a + 8"
    by (auto simp: serialize_item_in_def length_le_bytes_64 split: if_splits)
  from assms Suc l e1 obtain T where T: "m_serialization_id_to_method r (le_word ident) = Some T"
    by (cases "m_serialization_id_to_method r (le_word ident)") simp_all
  obtain e2 ms a2 where l2: "load_items f P r (field_tys (classes P T))
      (map default_val (field_tys (classes P T)), a1) = (e2, (ms, a2))"
    by (cases "load_items f P r (field_tys (classes P T))
      (map default_val (field_tys (classes P T)), a1)") auto
  from load_advances(2) [OF l2] have "m_offset a1 \<le> m_offset a2" by (simp add: advances_def)
  moreover from assms Suc l e1 T l2 have "a' = a2" by (cases e2) simp_all
  ultimately show ?thesis using a1 by simp
qed

section \<open>The registry after registration\<close>

lemma dom_register_types:
  "dom (m_type_information_to_serialization_id (register_types types empty_registry)) = fst ` set types"
  "dom (m_serialization_id_to_method (register_types types empty_registry)) = snd ` set types"
proof (induction types)
  case Nil
  { case 1 show ?case by (simp add: empty_registry_def) }
  { case 2 show ?case by (simp add: empty_registry_def) }
next
  case (Cons p types)
  { case 1 with Cons show ?case
      by (cases p) (auto simp: add_type_def add_def emplace_def split: option.splits) }
  { case 2 with Cons show ?case
      by (cases p) (auto simp: add_type_def add_def emplace_def split: option.splits) }
qed

lemma register_types_lookup:
  assumes "distinct (map fst types)" and "distinct (map snd types)" and "(T, ident) \<in> set types"
  shows "m_type_information_to_serialization_id (register_types types empty_registry) T = Some ident"
    and "m_serialization_id_to_method (register_types types empty_registry) ident = Some T"
  using assms
proof (induction types)
  case Nil
  { case 1 then show ?case by simp }
  { case 2 then show ?case by simp }
next
  case (Cons p types)
  obtain T' ident' where p: "p = (T', ident')" by (cases p)
  let ?r = "register_types types empty_registry"
  { case 1
    from 1 p have T': "m_type_information_to_serialization_id ?r T' = None"
      using dom_register_types(1) [of types] by (auto simp: domIff)
    show ?case
    proof (cases "(T, ident) = p")
      case True
      with p T' show ?thesis by (simp add: add_type_def add_def emplace_def)
    next
      case False
      with 1 p have "T \<noteq> T'" by (auto simp: image_iff)
      moreover from False 1 Cons.IH(1) have "m_type_information_to_serialization_id ?r T = Some ident"
        by simp
      ultimately show ?thesis using p T' by (simp add: add_type_def add_def emplace_def)
    qed }
  { case 2
    from 2 p have i': "m_serialization_id_to_method ?r ident' = None"
      using dom_register_types(2) [of types] by (auto simp: domIff)
    show ?case
    proof (cases "(T, ident) = p")
      case True
      with p i' show ?thesis by (simp add: add_type_def add_def emplace_def)
    next
      case False
      with 2 p have "ident \<noteq> ident'" by (auto simp: image_iff)
      moreover from False 2 Cons.IH(2) have "m_serialization_id_to_method ?r ident = Some T"
        by simp
      ultimately show ?thesis using p i' by (simp add: add_type_def add_def emplace_def)
    qed }
qed

section \<open>Auxiliary facts on saving\<close>

lemma fit_vector_memory_output_archive:
  "fit_vector (memory_output_archive buf) = memory_output_archive buf"
  by (simp add: fit_vector_def memory_output_archive_def vector_resize_def)

lemma save_items_scalars:
  "save_items P r (map VScalar its) a = serialize_items_out its a"
  by (induction its arbitrary: a) simp_all

lemma length_concat_replicate: "length (concat (replicate n xs)) = n * length xs"
  by (induction n) simp_all

lemma length_logical: "fitted a \<Longrightarrow> length (logical a) = m_size a"
  by (simp add: fitted_def logical_def)

lemma prefix_written:
  assumes "fitted a" and "appends (serialize_item_out prefix a) a'"
  shows "take (length prefix) (drop (m_size a) (logical a')) = prefix"
proof -
  from assms(2) obtain bs where "logical a' = logical (serialize_item_out prefix a) @ bs"
    by (auto simp: appends_def)
  with assms(1) have "logical a' = logical a @ prefix @ bs"
    by (simp add: serialize_item_out_logical)
  with length_logical [OF assms(1)] show ?thesis by simp
qed

lemma le_bytes_0_32: "le_bytes (0 :: size_type) = [0, 0, 0, 0]"
  by (simp add: le_bytes_def upt_rec)

section \<open>The archives' contracts on failure\<close>

text \<open>
  C2. Whatever the items do, and whether the call returns or throws,
  \<^verbatim>\<open>memory_output_archive::operator()\<close> leaves the vector's length equal to the logical
  size, passes the outcome of the items through and keeps the logical size they reached.
  In particular, on a vector of 100 bytes (logical size 100), a handler that writes items
  of 20 bytes in total and then throws \<open>e\<close> leaves the 100 bytes followed by the 20 written
  ones, length and logical size 120, and \<open>e\<close> propagates.
\<close>

theorem memory_output_archive_call_fits:
  "(memory_output_archive_call items a = (r, a') \<longrightarrow>
      length (m_output a') = m_size a' \<and> r = fst (items a) \<and> m_size a' = m_size (snd (items a))) \<and>
   (length buf = 100 \<and> length (concat written) = 20 \<longrightarrow>
      memory_output_archive_call (and_then (serialize_items_out written) (throw e))
        (memory_output_archive buf) =
      (Some e, \<lparr>m_output = buf @ concat written, m_size = 120\<rparr>))"
proof (rule conjI; rule impI)
  assume "memory_output_archive_call items a = (r, a')"
  then show "length (m_output a') = m_size a' \<and> r = fst (items a) \<and> m_size a' = m_size (snd (items a))"
    by (auto simp: memory_output_archive_call_def fit_vector_def vector_resize_def
             split: prod.splits option.splits)
next
  let ?a = "memory_output_archive buf"
  assume h: "length buf = 100 \<and> length (concat written) = 20"
  have f: "fitted ?a" and l: "logical ?a = buf" and m: "m_size ?a = length buf"
    by (simp_all add: fitted_def logical_def memory_output_archive_def)
  obtain a1 where run: "serialize_items_out written ?a = (None, a1)"
    using serialize_items_out_logical [OF f, of written] by (cases "serialize_items_out written ?a") auto
  with serialize_items_out_logical [OF f, of written] l m h
  have a1: "fitted a1" "logical a1 = buf @ concat written" "m_size a1 = 120" by simp_all
  from run have "and_then (serialize_items_out written) (throw e) ?a = (Some e, a1)"
    by (simp add: and_then_def throw_def)
  then show "memory_output_archive_call (and_then (serialize_items_out written) (throw e)) ?a =
      (Some e, \<lparr>m_output = buf @ concat written, m_size = 120\<rparr>)"
    using fit_vector_logical [OF a1(1)] a1(2,3)
    by (simp add: memory_output_archive_call_def)
qed

theorem memory_output_archive_call_fits_witness:
  "memory_output_archive_call (and_then (serialize_items_out [replicate 16 1, replicate 4 2]) (throw (user_error 0)))
        (memory_output_archive (replicate 100 0)) =
      (Some (user_error 0), \<lparr>m_output = replicate 100 0 @ replicate 16 1 @ replicate 4 2, m_size = 120\<rparr>)"
  using memory_output_archive_call_fits [of "and_then (serialize_items_out [replicate 16 1, replicate 4 2]) (throw (user_error 0))"
     "memory_output_archive (replicate 100 0)" "Some (user_error 0)" 
     "\<lparr>m_output = replicate 100 0 @ replicate 16 1 @ replicate 4 2, m_size = 120\<rparr>"
     "replicate 100 0" "[replicate 16 1, replicate 4 2]" "user_error 0"]
  by simp

text \<open>
  C5. A read from the view archive that asks for more bytes than remain between the
  cursor and the end of the input throws \<open>out_of_range\<close> and changes neither the
  destination nor the archive; this holds for the read of an item and for the read of
  binary data. In a call that reads two items, of which the first fits and the second does
  not, the first destination holds the bytes read and the second is untouched.
\<close>

theorem view_read_past_end_raises: 
  "(m_input_size a - m_offset a < length item \<longrightarrow>
      serialize_item_in (item, a) = (Some out_of_range, (item, a))) \<and>
   (m_input_size a - m_offset a < unat sz \<longrightarrow>
      serialize_binary_in sz (data, a) = (Some out_of_range, (data, a))) \<and>
   (m_offset a + length item1 \<le> m_input_size a \<and> m_input_size a - (m_offset a + length item1) < length item2 \<longrightarrow>
      serialize_items_in ([item1, item2], a) =
        (Some out_of_range, ([take (length item1) (drop (m_offset a) (m_input a)), item2],
                             a\<lparr>m_offset := m_offset a + length item1\<rparr>)))"
  by (auto simp: serialize_item_in_def serialize_binary_in_def)

theorem view_read_past_end_raises_witness:
  "serialize_item_in ([0, 0], \<lparr>m_input = [1, 2, 3, 4, 5], m_input_size = 5, m_offset = 4\<rparr>) =
     (Some out_of_range, ([0, 0], \<lparr>m_input = [1, 2, 3, 4, 5], m_input_size = 5, m_offset = 4\<rparr>)) \<and>
   serialize_binary_in 2 ([9, 9, 9], \<lparr>m_input = [1, 2, 3, 4, 5], m_input_size = 5, m_offset = 4\<rparr>) =
     (Some out_of_range, ([9, 9, 9], \<lparr>m_input = [1, 2, 3, 4, 5], m_input_size = 5, m_offset = 4\<rparr>)) \<and>
   serialize_items_in ([[0], [0, 0]], \<lparr>m_input = [1, 2, 3, 4, 5], m_input_size = 5, m_offset = 4\<rparr>) =
     (Some out_of_range, ([[5], [0, 0]], \<lparr>m_input = [1, 2, 3, 4, 5], m_input_size = 5, m_offset = 5\<rparr>))"
  using view_read_past_end_raises [of "\<lparr>m_input = [1, 2, 3, 4, 5], m_input_size = 5, m_offset = 4\<rparr>"
      "[0, 0]" 2 "[9, 9, 9]" "[0]" "[0, 0]"]
  by simp

text \<open>
  C6. When a load call on \<^verbatim>\<open>memory_input_archive\<close> completes normally, the items were
  run on a view of the whole vector from offset zero, the vector afterwards is the vector
  before without its first \<open>m_offset\<close> bytes (the bytes the call consumed) and the cursor
  is zero again. For a pack of fundamental items: the vector before is the loaded items,
  in order, followed by the vector after, and each item kept its size.
\<close>

theorem consuming_load_erases_consumed:
  "(memory_input_archive_call items (d, a) = (None, (d', a')) \<longrightarrow>
      (\<exists>v. items (d, memory_view_input_archive (m_input_vector a) (length (m_input_vector a))) = (None, (d', v)) \<and>
           m_input_vector a' = drop (m_offset v) (m_input_vector a) \<and>
           m_offset (view a') = 0)) \<and>
   (memory_input_archive_call serialize_items_in (its, a) = (None, (its', a')) \<longrightarrow>
      m_input_vector a = concat its' @ m_input_vector a' \<and>
      map length its' = map length its \<and>
      m_offset (view a') = 0)"
proof (intro conjI impI)
  assume "memory_input_archive_call items (d, a) = (None, (d', a'))"
  then show "\<exists>v. items (d, memory_view_input_archive (m_input_vector a) (length (m_input_vector a))) = (None, (d', v)) \<and>
           m_input_vector a' = drop (m_offset v) (m_input_vector a) \<and>
           m_offset (view a') = 0"
    by (auto simp: memory_input_archive_call_def erase_head_def get_offset_def reset_def
             split: prod.splits option.splits)
next
  let ?v = "memory_view_input_archive (m_input_vector a) (length (m_input_vector a))"
  let ?n = "sum_list (map length its)"
  assume call: "memory_input_archive_call serialize_items_in (its, a) = (None, (its', a'))"
  then obtain v where run: "serialize_items_in (its, ?v) = (None, (its', v))"
    and a': "a' = \<lparr>m_input_vector = drop (m_offset v) (m_input_vector a), view = v\<lparr>m_offset := 0\<rparr>\<rparr>"
    by (auto simp: memory_input_archive_call_def erase_head_def get_offset_def reset_def
             split: prod.splits option.splits)
  from serialize_items_in_None [OF run] have fit: "?n \<le> length (m_input_vector a)"
    by (simp add: memory_view_input_archive_def)
  then have "serialize_items_in (its, ?v) =
      (None, (fetch_all its 0 (m_input_vector a), ?v\<lparr>m_offset := ?n\<rparr>))"
    using serialize_items_in_all [of ?v its] by (simp add: memory_view_input_archive_def)
  with run have its': "its' = fetch_all its 0 (m_input_vector a)" and v: "v = ?v\<lparr>m_offset := ?n\<rparr>"
    by simp_all
  from fit have "concat its' = take ?n (m_input_vector a)"
    using concat_fetch_all [of 0 its "m_input_vector a"] by (simp add: its')
  moreover have "m_input_vector a' = drop ?n (m_input_vector a)"
    by (simp add: a' v)
  ultimately show "m_input_vector a = concat its' @ m_input_vector a'" by simp
  from fit show "map length its' = map length its"
    using length_fetch_all [of 0 its "m_input_vector a"] by (simp add: its')
  show "m_offset (view a') = 0" by (simp add: a')
qed

theorem consuming_load_erases_consumed_witness:
  "memory_input_archive_call serialize_items_in ([[0, 0], [0]], memory_input_archive [1, 2, 3, 4]) =
     (None, ([[1, 2], [3]],
             \<lparr>m_input_vector = [4], view = \<lparr>m_input = [1, 2, 3, 4], m_input_size = 4, m_offset = 0\<rparr>\<rparr>)) \<and>
   m_input_vector (memory_input_archive [1, 2, 3, 4]) = concat [[1, 2], [3]] @ [4]"
proof -
  have call: "memory_input_archive_call serialize_items_in ([[0, 0], [0]], memory_input_archive [1, 2, 3, 4]) =
     (None, ([[1, 2], [3]],
             \<lparr>m_input_vector = [4], view = \<lparr>m_input = [1, 2, 3, 4], m_input_size = 4, m_offset = 0\<rparr>\<rparr>))"
    by (simp add: memory_input_archive_call_def memory_input_archive_def
        memory_view_input_archive_def serialize_item_in_def erase_head_def get_offset_def reset_def)
  from consuming_load_erases_consumed [of serialize_items_in "[[0, 0], [0]]"
      "memory_input_archive [1, 2, 3, 4]" "[[1, 2], [3]]"
      "\<lparr>m_input_vector = [4], view = \<lparr>m_input = [1, 2, 3, 4], m_input_size = 4, m_offset = 0\<rparr>\<rparr>"
      "[[0, 0], [0]]" "[[1, 2], [3]]"] call
  have "m_input_vector (memory_input_archive [1, 2, 3, 4]) = concat [[1, 2], [3]] @ [4]"
    by simp
  with call show ?thesis by simp
qed

text \<open>
  C7 as stated fails on the consuming archive: a load call whose first read succeeds and
  whose second read runs past the end throws \<open>out_of_range\<close> and yet erases the four bytes
  of the first read from the caller's vector.
\<close>

theorem failing_load_erases_earlier_reads:
  "memory_input_archive_call serialize_items_in
     ([[0, 0, 0, 0], [0, 0, 0, 0]], memory_input_archive [1, 2, 3, 4, 5]) =
   (Some out_of_range,
    ([[1, 2, 3, 4], [0, 0, 0, 0]],
     \<lparr>m_input_vector = [5], view = \<lparr>m_input = [1, 2, 3, 4, 5], m_input_size = 5, m_offset = 0\<rparr>\<rparr>))"
  by (simp add: memory_input_archive_call_def memory_input_archive_def
      memory_view_input_archive_def serialize_item_in_def erase_head_def get_offset_def reset_def)

text \<open>
  C7, amended. A read that would run past the end throws \<open>out_of_range\<close> and consumes
  nothing: destination, input, size and cursor of the view archive are unchanged. A load
  call on the consuming archive that fails so, after the reads \<open>pre\<close> succeeded, erases
  exactly the bytes of \<open>pre\<close> from the head of the vector (the \<^verbatim>\<open>catch\<close> block erases
  \<^verbatim>\<open>get_offset()\<close> bytes), and leaves the failing and the later destinations untouched;
  when the failing read is the first of the call, the vector is unchanged.
\<close>

theorem failing_read_consumes_nothing:
  "(m_input_size v < length item0 + m_offset v \<longrightarrow>
      serialize_item_in (item0, v) = (Some out_of_range, (item0, v))) \<and>
   (sum_list (map length pre) \<le> length input \<and>
    length input < sum_list (map length pre) + length item \<longrightarrow>
      memory_input_archive_call serialize_items_in (pre @ item # post, memory_input_archive input) =
        (Some out_of_range,
         (fetch_all pre 0 input @ item # post,
          \<lparr>m_input_vector = drop (sum_list (map length pre)) input,
             view = \<lparr>m_input = input, m_input_size = length input, m_offset = 0\<rparr>\<rparr>))) \<and>
   (length input1 < length item1 \<longrightarrow>
      memory_input_archive_call serialize_items_in (item1 # post1, memory_input_archive input1) =
        (Some out_of_range,
         (item1 # post1,
          \<lparr>m_input_vector = input1,
             view = \<lparr>m_input = input1, m_input_size = length input1, m_offset = 0\<rparr>\<rparr>)))"
proof (intro conjI impI)
  assume "m_input_size v < length item0 + m_offset v"
  then show "serialize_item_in (item0, v) = (Some out_of_range, (item0, v))"
    by (simp add: serialize_item_in_def)
next
  assume "sum_list (map length pre) \<le> length input \<and>
    length input < sum_list (map length pre) + length item"
  then show "memory_input_archive_call serialize_items_in (pre @ item # post, memory_input_archive input) =
        (Some out_of_range,
         (fetch_all pre 0 input @ item # post,
          \<lparr>m_input_vector = drop (sum_list (map length pre)) input,
             view = \<lparr>m_input = input, m_input_size = length input, m_offset = 0\<rparr>\<rparr>))"
    using serialize_items_in_fails [of pre input item post]
    by (simp add: memory_input_archive_call_def memory_input_archive_def erase_head_def
        get_offset_def reset_def)
next
  assume "length input1 < length item1"
  then show "memory_input_archive_call serialize_items_in (item1 # post1, memory_input_archive input1) =
        (Some out_of_range,
         (item1 # post1,
          \<lparr>m_input_vector = input1,
             view = \<lparr>m_input = input1, m_input_size = length input1, m_offset = 0\<rparr>\<rparr>))"
    using serialize_items_in_fails [of "[]" input1 item1 post1]
    by (simp add: memory_input_archive_call_def memory_input_archive_def erase_head_def
        get_offset_def reset_def)
qed

theorem failing_read_consumes_nothing_witness:
  "serialize_item_in ([0, 0], \<lparr>m_input = [1, 2, 3, 4, 5], m_input_size = 5, m_offset = 4\<rparr>) =
     (Some out_of_range, ([0, 0], \<lparr>m_input = [1, 2, 3, 4, 5], m_input_size = 5, m_offset = 4\<rparr>)) \<and>
   memory_input_archive_call serialize_items_in
     ([[0, 0], [0, 0, 0, 0], [7]], memory_input_archive [1, 2, 3, 4, 5]) =
   (Some out_of_range,
    ([[1, 2], [0, 0, 0, 0], [7]],
     \<lparr>m_input_vector = [3, 4, 5], view = \<lparr>m_input = [1, 2, 3, 4, 5], m_input_size = 5, m_offset = 0\<rparr>\<rparr>)) \<and>
   memory_input_archive_call serialize_items_in ([[0, 0, 0, 0]], memory_input_archive [1, 2, 3]) =
     (Some out_of_range,
      ([[0, 0, 0, 0]],
       \<lparr>m_input_vector = [1, 2, 3], view = \<lparr>m_input = [1, 2, 3], m_input_size = 3, m_offset = 0\<rparr>\<rparr>))"
  using failing_read_consumes_nothing [of "\<lparr>m_input = [1, 2, 3, 4, 5], m_input_size = 5, m_offset = 4\<rparr>" "[0, 0]"
               "[[0, 0]]" "[1, 2, 3, 4, 5]" "[0, 0, 0, 0]" "[[7]]" "[1, 2, 3]" "[0, 0, 0, 0]" "[]"]
  by simp

section \<open>Pointers and the polymorphic registry\<close>

text \<open>
  C8. Saving a null owning pointer, \<^verbatim>\<open>unique_ptr\<close> or \<^verbatim>\<open>shared_ptr\<close>, to a polymorphic
  class or not, throws \<open>attempt_to_serialize_null_pointer_error\<close> and leaves the archive as
  it was: no byte and, for a polymorphic pointee, no id is written. Through
  \<^verbatim>\<open>memory_output_archive\<close> the caller's vector is unchanged as well.
\<close>

theorem null_pointer_save_raises:
  "save P r (VNull k) a = (Some attempt_to_serialize_null_pointer_error, a) \<and>
   save P r (VPolyNull k) a = (Some attempt_to_serialize_null_pointer_error, a) \<and>
   memory_output_archive_call (save P r (VNull k)) (memory_output_archive buf) =
     (Some attempt_to_serialize_null_pointer_error, memory_output_archive buf) \<and>
   memory_output_archive_call (save P r (VPolyNull k)) (memory_output_archive buf) =
     (Some attempt_to_serialize_null_pointer_error, memory_output_archive buf)"
  by (simp add: memory_output_archive_call_def fit_vector_memory_output_archive)

text \<open>The bytes appended between the archive \<open>a\<close> and the later archive \<open>a'\<close>.\<close>

definition emitted ::
  "lazy_vector_memory_output_archive \<Rightarrow> lazy_vector_memory_output_archive \<Rightarrow> byte list" where
  "emitted a a' = drop (m_size a) (logical a')"

lemma appends_emitted:
  "fitted a \<Longrightarrow> appends a a' \<Longrightarrow> logical a' = logical a @ emitted a a'"
  by (auto simp: appends_def emitted_def length_logical)

lemma emitted_trans:
  assumes "fitted a" and "appends a a'" and "appends a' a''"
  shows "emitted a a'' = emitted a a' @ emitted a' a''"
proof -
  from assms(2) have f': "fitted a'" by (simp add: appends_def)
  from appends_emitted [OF assms(1,2)] appends_emitted [OF f' assms(3)]
  have "logical a'' = logical a @ emitted a a' @ emitted a' a''" by simp
  with length_logical [OF assms(1)] show ?thesis
    by (simp add: emitted_def [of a a''])
qed

lemma emitted_refl: "fitted a \<Longrightarrow> emitted a a = []"
  by (simp add: emitted_def length_logical)

lemma emitted_item: "fitted a \<Longrightarrow> emitted a (serialize_item_out item a) = item"
  by (simp add: emitted_def serialize_item_out_logical length_logical)

lemma emitted_binary:
  "fitted a \<Longrightarrow> unat sz \<le> length data \<Longrightarrow>
   emitted a (serialize_binary_out data sz a) = take (unat sz) data"
  by (simp add: emitted_def serialize_binary_out_logical length_logical)

lemma fitted_item: "fitted a \<Longrightarrow> fitted (serialize_item_out item a)"
  by (simp add: serialize_item_out_logical)

lemma emitted_after_item:
  assumes "fitted a" and "appends (serialize_item_out p a) a'"
  shows "emitted a a' = p @ emitted (serialize_item_out p a) a'"
  using emitted_trans [OF assms(1) appends_item [OF assms(1)] assms(2)] assms(1)
  by (simp add: emitted_item)

text \<open>
  What a save writes, and whether it throws, does not depend on the archive it is given.
\<close>

lemma save_uniform:
  "fitted a \<Longrightarrow> fitted b \<Longrightarrow>
     fst (save P r v a) = fst (save P r v b) \<and>
     emitted a (snd (save P r v a)) = emitted b (snd (save P r v b))"
  "fitted a \<Longrightarrow> fitted b \<Longrightarrow>
     fst (save_items P r vs a) = fst (save_items P r vs b) \<and>
     emitted a (snd (save_items P r vs a)) = emitted b (snd (save_items P r vs b))"
  "fitted a \<Longrightarrow> fitted b \<Longrightarrow>
     fst (registry_serialize_save P r D ms a) = fst (registry_serialize_save P r D ms b) \<and>
     emitted a (snd (registry_serialize_save P r D ms a)) =
       emitted b (snd (registry_serialize_save P r D ms b))"
  "fitted a \<Longrightarrow> fitted b \<Longrightarrow>
     fst (serialization_method_save P r T D ms a) = fst (serialization_method_save P r T D ms b) \<and>
     emitted a (snd (serialization_method_save P r T D ms a)) =
       emitted b (snd (serialization_method_save P r T D ms b))"
proof (induction P r v a and P r vs a and P r D ms a and P r T D ms a arbitrary: b and b and b and b
       rule: save_save_items_registry_serialize_save_serialization_method_save.induct)
  case (1 P r item a)
  then show ?case by (simp add: emitted_item)
next
  case (2 P r items a)
  from 2(1) [OF 2(2,3)] show ?case by simp
next
  case (3 P r items a)
  from 3(1) [OF 3(2,3)] show ?case by simp
next
  case (4 P r items a)
  let ?p = "le_bytes (word_of_nat (length items) :: size_type)"
  let ?a1 = "serialize_item_out ?p a" and ?b1 = "serialize_item_out ?p b"
  note IH = 4(1) [OF fitted_item [OF 4(2)] fitted_item [OF 4(3)]]
  have "emitted a (snd (save_items P r items (serialize_item_out ?p a))) =
      ?p @ emitted (serialize_item_out ?p a) (snd (save_items P r items (serialize_item_out ?p a)))"
    by (rule emitted_after_item [OF 4(2) save_appends(2) [OF fitted_item [OF 4(2)]]])
  moreover have "emitted b (snd (save_items P r items (serialize_item_out ?p b))) =
      ?p @ emitted (serialize_item_out ?p b) (snd (save_items P r items (serialize_item_out ?p b)))"
    by (rule emitted_after_item [OF 4(3) save_appends(2) [OF fitted_item [OF 4(3)]]])
  ultimately show ?case using IH by simp
next
  case (5 P r n data a)
  define sz where "sz = (word_of_nat (length data div n) :: size_type)"
  let ?p = "le_bytes sz"
  let ?a1 = "serialize_item_out ?p a" and ?b1 = "serialize_item_out ?p b"
  show ?case
  proof (cases "sz = 0")
    case True
    with 5 show ?thesis by (simp add: sz_def [symmetric] emitted_item)
  next
    case False
    then have "0 < n" by (cases "n = 0") (simp_all add: sz_def)
    then have le: "unat (size_in_bytes n sz) \<le> length data"
      unfolding sz_def by (rule size_in_bytes_le)
    have "emitted a (serialize_binary_out data (size_in_bytes n sz) (serialize_item_out ?p a)) =
        ?p @ take (unat (size_in_bytes n sz)) data"
      using emitted_after_item [OF 5(1) appends_binary [OF fitted_item [OF 5(1)] le]]
      by (simp add: emitted_binary [OF fitted_item [OF 5(1)] le])
    moreover have "emitted b (serialize_binary_out data (size_in_bytes n sz) (serialize_item_out ?p b)) =
        ?p @ take (unat (size_in_bytes n sz)) data"
      using emitted_after_item [OF 5(2) appends_binary [OF fitted_item [OF 5(2)] le]]
      by (simp add: emitted_binary [OF fitted_item [OF 5(2)] le])
    ultimately show ?thesis using False
      by (simp add: sz_def [symmetric] Let_def)
  qed
next
  case (6 P r items a)
  let ?p = "le_bytes (word_of_nat (length items) :: size_type)"
  note IH = 6(1) [OF fitted_item [OF 6(2)] fitted_item [OF 6(3)]]
  have "emitted a (snd (save_items P r items (serialize_item_out ?p a))) =
      ?p @ emitted (serialize_item_out ?p a) (snd (save_items P r items (serialize_item_out ?p a)))"
    by (rule emitted_after_item [OF 6(2) save_appends(2) [OF fitted_item [OF 6(2)]]])
  moreover have "emitted b (snd (save_items P r items (serialize_item_out ?p b))) =
      ?p @ emitted (serialize_item_out ?p b) (snd (save_items P r items (serialize_item_out ?p b)))"
    by (rule emitted_after_item [OF 6(3) save_appends(2) [OF fitted_item [OF 6(3)]]])
  ultimately show ?case using IH by simp
next
  case (7 P r k a)
  then show ?case by (simp add: emitted_refl)
next
  case (8 P r k v a)
  from 8(1) [OF 8(2,3)] show ?case by simp
next
  case (9 P r k a)
  then show ?case by (simp add: emitted_refl)
next
  case (10 P r k D members a)
  from 10(1) [OF 10(2,3)] show ?case by simp
next
  case (11 P r D members a)
  from 11(1) [OF 11(2,3)] show ?case by simp
next
  case (12 P r a)
  then show ?case by (simp add: emitted_refl)
next
  case (13 P r item items a)
  note fa = 13(3) and fb = 13(4)
  obtain e a' where sa: "save P r item a = (e, a')" by (cases "save P r item a")
  obtain e' b' where sb: "save P r item b = (e', b')" by (cases "save P r item b")
  from 13(1) [OF fa fb] sa sb have ee: "e' = e" and em: "emitted a a' = emitted b b'" by simp_all
  from save_appends(1) [OF fa, of P r item] sa have aa: "appends a a'" by simp
  from save_appends(1) [OF fb, of P r item] sb have bb: "appends b b'" by simp
  then have fa': "fitted a'" and fb': "fitted b'" using aa by (simp_all add: appends_def)
  show ?case
  proof (cases e)
    case (Some x)
    with sa sb ee em show ?thesis by simp
  next
    case None
    from 13(2) [OF sa [unfolded None, symmetric] refl fa' fb']
    have IH: "fst (save_items P r items a') = fst (save_items P r items b')"
      "emitted a' (snd (save_items P r items a')) = emitted b' (snd (save_items P r items b'))"
      by simp_all
    have "emitted a (snd (save_items P r items a')) =
        emitted a a' @ emitted a' (snd (save_items P r items a'))"
      by (rule emitted_trans [OF fa aa save_appends(2) [OF fa']])
    moreover have "emitted b (snd (save_items P r items b')) =
        emitted b b' @ emitted b' (snd (save_items P r items b'))"
      by (rule emitted_trans [OF fb bb save_appends(2) [OF fb']])
    ultimately show ?thesis using IH em sa sb ee None by simp
  qed
next
  case (14 P r D ms a)
  show ?case
  proof (cases "m_type_information_to_serialization_id r D")
    case None
    with 14(2,3) show ?thesis by (simp add: emitted_refl)
  next
    case (Some ident)
    note id = Some
    show ?thesis
    proof (cases "m_serialization_id_to_method r ident")
      case None
      with id 14(2,3) show ?thesis by (simp add: emitted_refl)
    next
      case (Some T)
      let ?p = "le_bytes ident"
      note IH = 14(1) [OF id Some fitted_item [OF 14(2)] fitted_item [OF 14(3)]]
      have "emitted a (snd (serialization_method_save P r T D ms (serialize_item_out ?p a))) =
          ?p @ emitted (serialize_item_out ?p a)
                 (snd (serialization_method_save P r T D ms (serialize_item_out ?p a)))"
        by (rule emitted_after_item [OF 14(2) save_appends(4) [OF fitted_item [OF 14(2)]]])
      moreover have "emitted b (snd (serialization_method_save P r T D ms (serialize_item_out ?p b))) =
          ?p @ emitted (serialize_item_out ?p b)
                 (snd (serialization_method_save P r T D ms (serialize_item_out ?p b)))"
        by (rule emitted_after_item [OF 14(3) save_appends(4) [OF fitted_item [OF 14(3)]]])
      ultimately show ?thesis using IH id Some by simp
    qed
  qed
next
  case (15 P r T D ms a)
  show ?case
  proof (cases "dynamic_cast_ok P D T")
    case True
    from 15(1) [OF True 15(2,3)] True show ?thesis by simp
  next
    case False
    with 15(2,3) show ?thesis by (simp add: emitted_refl)
  qed
qed

lemma register_types_id_known:
  "m_type_information_to_serialization_id (register_types types empty_registry) D = Some ident \<Longrightarrow>
   (D, ident) \<in> set types \<and>
   (\<exists>T. m_serialization_id_to_method (register_types types empty_registry) ident = Some T)"
proof (induction types)
  case Nil
  then show ?case by (simp add: empty_registry_def)
next
  case (Cons p types)
  obtain T' ident' where p: "p = (T', ident')" by (cases p)
  let ?r = "register_types types empty_registry"
  show ?case
  proof (cases "m_type_information_to_serialization_id ?r D")
    case None
    with Cons.prems p have "D = T'" "ident = ident'"
      by (auto simp: add_type_def add_def emplace_def split: if_splits option.splits)
    with p show ?thesis
      by (auto simp: add_type_def add_def emplace_def split: option.splits)
  next
    case (Some i)
    with Cons.prems p have "i = ident"
      by (auto simp: add_type_def add_def emplace_def split: option.splits if_splits)
    with Some Cons.IH have "(D, ident) \<in> set types"
      and "\<exists>T. m_serialization_id_to_method ?r ident = Some T" by simp_all
    with p show ?thesis
      by (auto simp: add_type_def add_def emplace_def split: option.splits)
  qed
qed

lemma emitted_from_empty: "emitted (memory_output_archive []) a' = logical a'"
  by (simp add: emitted_def memory_output_archive_def)

lemma fitted_empty: "fitted (memory_output_archive [])"
  by (simp add: fitted_def memory_output_archive_def)

lemma save_registered:
  assumes id: "m_type_information_to_serialization_id r D = Some ident"
    and m: "m_serialization_id_to_method r ident = Some D"
    and len: "length members = length (field_tys (classes P D))"
    and f: "fitted a"
  shows "fst (registry_serialize_save P r D members a) =
           fst (save P r (VTuple members) (memory_output_archive []))"
    and "logical (snd (registry_serialize_save P r D members a)) =
           logical a @ le_bytes ident @ logical (snd (save P r (VTuple members) (memory_output_archive [])))"
proof -
  let ?a1 = "serialize_item_out (le_bytes ident) a"
  let ?a0 = "memory_output_archive []"
  from id m len have eq: "registry_serialize_save P r D members a = save_items P r members ?a1"
    by (simp add: dynamic_cast_ok_def)
  note f1 = fitted_item [OF f, of "le_bytes ident"]
  note u = save_uniform(2) [OF f1 fitted_empty, of P r members]
  show "fst (registry_serialize_save P r D members a) =
           fst (save P r (VTuple members) ?a0)"
    unfolding eq using u by simp
  show "logical (snd (registry_serialize_save P r D members a)) =
           logical a @ le_bytes ident @ logical (snd (save P r (VTuple members) ?a0))"
    unfolding eq
    using appends_emitted [OF f1 save_appends(2) [OF f1], of P r members] u f
    by (simp add: emitted_from_empty serialize_item_out_logical)
qed

lemma save_known_id_first:
  assumes id: "m_type_information_to_serialization_id r D = Some ident"
    and m: "m_serialization_id_to_method r ident = Some T"
    and f: "fitted a"
  shows "take 8 (drop (m_size a) (logical (snd (registry_serialize_save P r D members a)))) =
           le_bytes ident"
proof -
  let ?a1 = "serialize_item_out (le_bytes ident) a"
  from id m have eq: "registry_serialize_save P r D members a =
      serialization_method_save P r T D members ?a1" by simp
  have "take (length (le_bytes ident)) (drop (m_size a)
      (logical (snd (serialization_method_save P r T D members ?a1)))) = le_bytes ident"
    by (rule prefix_written [OF f save_appends(4) [OF fitted_item [OF f]]])
  then show ?thesis unfolding eq by (simp add: length_le_bytes_64)
qed

text \<open>
  C3. Let \<open>D\<close> be registered under \<open>ident\<close>, the classes and the ids of the registered
  pairs being distinct, and let the object have the members its class declares. Saving it
  through an owning pointer or through \<^verbatim>\<open>as_polymorphic\<close>, into any archive, writes after
  the bytes written so far the 8 bytes of the id and then exactly the bytes that saving
  the object as its class saves it (its members in order) writes into an empty archive;
  it throws when and what that save throws, and the archive after it is the one after
  writing the id as an item and saving the members. Whatever the registered pairs are
  (a class or an id may occur twice), for a registered dynamic type the 8 bytes written
  first are those of an id registered with it. If the dynamic type is not registered,
  \<open>undeclared_polymorphic_type_error\<close> is thrown and the archive is unchanged.
\<close>

theorem registry_save_writes_id_first:
  "(distinct (map fst types) \<and> distinct (map snd types) \<and> (D, ident) \<in> set types \<and>
    length members = length (field_tys (classes P D)) \<and> fitted a \<longrightarrow>
      fst (save P (register_types types empty_registry) (VPolyPtr k D members) a) =
        fst (save P (register_types types empty_registry) (VTuple members) (memory_output_archive [])) \<and>
      logical (snd (save P (register_types types empty_registry) (VPolyPtr k D members) a)) =
        logical a @ le_bytes ident @
        logical (snd (save P (register_types types empty_registry) (VTuple members)
                        (memory_output_archive []))) \<and>
      fst (save P (register_types types empty_registry) (VPolyRef D members) a) =
        fst (save P (register_types types empty_registry) (VTuple members) (memory_output_archive [])) \<and>
      logical (snd (save P (register_types types empty_registry) (VPolyRef D members) a)) =
        logical a @ le_bytes ident @
        logical (snd (save P (register_types types empty_registry) (VTuple members)
                        (memory_output_archive []))) \<and>
      save P (register_types types empty_registry) (VPolyPtr k D members) a =
        save P (register_types types empty_registry) (VTuple members)
          (serialize_item_out (le_bytes ident) a) \<and>
      save P (register_types types empty_registry) (VPolyRef D members) a =
        save P (register_types types empty_registry) (VTuple members)
          (serialize_item_out (le_bytes ident) a) \<and>
      length (le_bytes ident) = 8) \<and>
   (D \<in> fst ` set types \<and> fitted a \<longrightarrow>
      (\<exists>ident'. (D, ident') \<in> set types \<and>
         take 8 (drop (m_size a) (logical (snd
           (save P (register_types types empty_registry) (VPolyPtr k D members) a)))) =
           le_bytes ident' \<and>
         take 8 (drop (m_size a) (logical (snd
           (save P (register_types types empty_registry) (VPolyRef D members) a)))) =
           le_bytes ident')) \<and>
   (D' \<notin> fst ` set types \<longrightarrow>
      save P (register_types types empty_registry) (VPolyPtr k D' members) a =
        (Some undeclared_polymorphic_type_error, a) \<and>
      save P (register_types types empty_registry) (VPolyRef D' members) a =
        (Some undeclared_polymorphic_type_error, a))"
proof (intro conjI impI)
  let ?r = "register_types types empty_registry"
  assume h: "distinct (map fst types) \<and> distinct (map snd types) \<and> (D, ident) \<in> set types \<and>
    length members = length (field_tys (classes P D)) \<and> fitted a"
  from h register_types_lookup [of types D ident]
  have l: "m_type_information_to_serialization_id ?r D = Some ident"
    "m_serialization_id_to_method ?r ident = Some D" by simp_all
  from h have len: "length members = length (field_tys (classes P D))" and f: "fitted a"
    by simp_all
  note s = save_registered [OF l len f]
  from s(1) show "fst (save P ?r (VPolyPtr k D members) a) =
      fst (save P ?r (VTuple members) (memory_output_archive []))" by simp
  from s(2) show "logical (snd (save P ?r (VPolyPtr k D members) a)) =
      logical a @ le_bytes ident @ logical (snd (save P ?r (VTuple members) (memory_output_archive [])))"
    by simp
  from s(1) show "fst (save P ?r (VPolyRef D members) a) =
      fst (save P ?r (VTuple members) (memory_output_archive []))" by simp
  from s(2) show "logical (snd (save P ?r (VPolyRef D members) a)) =
      logical a @ le_bytes ident @ logical (snd (save P ?r (VTuple members) (memory_output_archive [])))"
    by simp
  from l len show "save P ?r (VPolyPtr k D members) a =
        save P ?r (VTuple members) (serialize_item_out (le_bytes ident) a)"
    by (simp add: dynamic_cast_ok_def)
  from l len show "save P ?r (VPolyRef D members) a =
        save P ?r (VTuple members) (serialize_item_out (le_bytes ident) a)"
    by (simp add: dynamic_cast_ok_def)
  show "length (le_bytes ident) = 8" by (rule length_le_bytes_64)
next
  let ?r = "register_types types empty_registry"
  assume h: "D \<in> fst ` set types \<and> fitted a"
  then have "D \<in> dom (m_type_information_to_serialization_id ?r)"
    by (simp add: dom_register_types(1))
  then obtain ident' where id: "m_type_information_to_serialization_id ?r D = Some ident'"
    by auto
  from register_types_id_known [OF id] obtain T where mem: "(D, ident') \<in> set types"
    and m: "m_serialization_id_to_method ?r ident' = Some T" by blast
  from h have f: "fitted a" by simp
  note s = save_known_id_first [OF id m f, of P members]
  from mem s
  show "\<exists>ident'. (D, ident') \<in> set types \<and>
         take 8 (drop (m_size a) (logical (snd (save P ?r (VPolyPtr k D members) a)))) =
           le_bytes ident' \<and>
         take 8 (drop (m_size a) (logical (snd (save P ?r (VPolyRef D members) a)))) =
           le_bytes ident'"
    by auto
next
  assume "D' \<notin> fst ` set types"
  then have n: "m_type_information_to_serialization_id (register_types types empty_registry) D' = None"
    using dom_register_types(1) [of types] by (auto simp: domIff)
  then show "save P (register_types types empty_registry) (VPolyPtr k D' members) a =
        (Some undeclared_polymorphic_type_error, a)" by simp
  from n show "save P (register_types types empty_registry) (VPolyRef D' members) a =
        (Some undeclared_polymorphic_type_error, a)" by simp
qed

theorem registry_save_writes_id_first_witness:
  "logical (snd (save example_program (register_types example_types empty_registry)
     (VPolyPtr unique_ptr ''student'' [VContig 1 [65], VContig 1 [66, 67]]) (memory_output_archive [7]))) =
   [7] @ le_bytes (0x8278ec9ea7e16526 :: id_type) @ [1, 0, 0, 0, 65, 2, 0, 0, 0, 66, 67] \<and>
   fst (save example_program (register_types example_types empty_registry)
     (VPolyPtr unique_ptr ''student'' [VContig 1 [65], VContig 1 [66, 67]]) (memory_output_archive [7])) =
   None \<and>
   logical (snd (save example_program (register_types example_types empty_registry)
     (VPolyRef ''student'' [VContig 1 [65], VContig 1 [66, 67]]) (memory_output_archive [7]))) =
   [7] @ le_bytes (0x8278ec9ea7e16526 :: id_type) @ [1, 0, 0, 0, 65, 2, 0, 0, 0, 66, 67] \<and>
   save example_program (register_types example_types empty_registry)
     (VPolyRef ''teacher'' [VContig 1 [65], VContig 1 [66, 67]]) (memory_output_archive [7]) =
   (Some undeclared_polymorphic_type_error, memory_output_archive [7])"
proof -
  let ?P = example_program and ?r = "register_types example_types empty_registry"
  let ?ms = "[VContig 1 [65], VContig 1 [66, 67]]"
  let ?a = "memory_output_archive [7]"
  have body: "logical (snd (save ?P ?r (VTuple ?ms) (memory_output_archive []))) =
      [1, 0, 0, 0, 65, 2, 0, 0, 0, 66, 67]"
    "fst (save ?P ?r (VTuple ?ms) (memory_output_archive [])) = None"
    by code_simp+
  have l7: "logical ?a = [7]" by (simp add: logical_def memory_output_archive_def)
  have hyp: "distinct (map fst example_types) \<and> distinct (map snd example_types) \<and>
      (''student'', 0x8278ec9ea7e16526) \<in> set example_types \<and>
      length ?ms = length (field_tys (classes ?P ''student'')) \<and> fitted ?a"
    by (simp add: example_types_def example_program_def fitted_def memory_output_archive_def)
  have nt: "''teacher'' \<notin> fst ` set example_types" by (simp add: example_types_def)
  note t = registry_save_writes_id_first [where types = example_types and D = "''student''"
      and ident = "0x8278ec9ea7e16526" and members = ?ms and P = ?P
      and k = unique_ptr and a = ?a and D' = "''teacher''"]
  from t hyp have c:
    "logical (snd (save ?P ?r (VPolyPtr unique_ptr ''student'' ?ms) ?a)) =
       logical ?a @ le_bytes (0x8278ec9ea7e16526 :: id_type) @
       logical (snd (save ?P ?r (VTuple ?ms) (memory_output_archive [])))"
    "fst (save ?P ?r (VPolyPtr unique_ptr ''student'' ?ms) ?a) =
       fst (save ?P ?r (VTuple ?ms) (memory_output_archive []))"
    "logical (snd (save ?P ?r (VPolyRef ''student'' ?ms) ?a)) =
       logical ?a @ le_bytes (0x8278ec9ea7e16526 :: id_type) @
       logical (snd (save ?P ?r (VTuple ?ms) (memory_output_archive [])))"
    by blast+
  from t nt have u: "save ?P ?r (VPolyRef ''teacher'' ?ms) ?a =
      (Some undeclared_polymorphic_type_error, ?a)" by blast
  show ?thesis unfolding c body l7 u by (intro conjI refl)
qed

text \<open>
  C10. When the registry has read an id and built an object of dynamic type \<open>T\<close>, and
  \<open>T\<close> is not convertible to the static pointee type \<open>S\<close>, loading the owning pointer
  (of either kind) throws \<open>polymorphic_type_mismatch_error\<close>; the destination pointer is
  what it was, the object built is dropped, and the cursor stays where the registry left
  it, at least the 8 bytes of the id further. On the consuming archive those bytes are
  erased from the caller's vector.
\<close>

theorem polymorphic_mismatch_keeps_destination:
  "registry_serialize_load fuel P r (None, a) = (None, (Some (T, members), a')) \<and>
   \<not> dynamic_cast_ok P T S \<longrightarrow>
     load fuel P r (TPolyPtr k S) (object, a) =
       (Some polymorphic_type_mismatch_error, (object, a')) \<and>
     m_offset a + 8 \<le> m_offset a' \<and>
     (a = memory_view_input_archive input (length input) \<longrightarrow>
        memory_input_archive_call (load fuel P r (TPolyPtr k S)) (object, memory_input_archive input) =
          (Some polymorphic_type_mismatch_error,
           (object, \<lparr>m_input_vector = drop (m_offset a') input, view = a'\<lparr>m_offset := 0\<rparr>\<rparr>)))"
proof (intro impI conjI)
  assume h: "registry_serialize_load fuel P r (None, a) = (None, (Some (T, members), a')) \<and>
   \<not> dynamic_cast_ok P T S"
  then show l: "load fuel P r (TPolyPtr k S) (object, a) =
       (Some polymorphic_type_mismatch_error, (object, a'))" by simp
  from h show "m_offset a + 8 \<le> m_offset a'"
    using registry_serialize_load_consumes_id [of fuel P r None a "Some (T, members)" a'] by simp
  assume "a = memory_view_input_archive input (length input)"
  with l show "memory_input_archive_call (load fuel P r (TPolyPtr k S)) (object, memory_input_archive input) =
          (Some polymorphic_type_mismatch_error,
           (object, \<lparr>m_input_vector = drop (m_offset a') input, view = a'\<lparr>m_offset := 0\<rparr>\<rparr>))"
    by (simp add: memory_input_archive_call_def memory_input_archive_def erase_head_def
        get_offset_def reset_def)
qed

theorem polymorphic_mismatch_keeps_destination_witness:
  "load (Suc 0) example_program (register_types example_types empty_registry)
     (TPolyPtr shared_ptr ''vehicle'')
     (VPolyNull shared_ptr,
      memory_view_input_archive
        [0x26, 0x65, 0xe1, 0xa7, 0x9e, 0xec, 0x78, 0x82, 1, 0, 0, 0, 65, 2, 0, 0, 0, 66, 67] 19) =
   (Some polymorphic_type_mismatch_error,
    (VPolyNull shared_ptr,
     \<lparr>m_input = [0x26, 0x65, 0xe1, 0xa7, 0x9e, 0xec, 0x78, 0x82, 1, 0, 0, 0, 65, 2, 0, 0, 0, 66, 67],
        m_input_size = 19, m_offset = 19\<rparr>))"
proof -
  have reg: "registry_serialize_load (Suc 0) example_program (register_types example_types empty_registry)
       (None, memory_view_input_archive
          [0x26, 0x65, 0xe1, 0xa7, 0x9e, 0xec, 0x78, 0x82, 1, 0, 0, 0, 65, 2, 0, 0, 0, 66, 67] 19) =
     (None, (Some (''student'', [VContig 1 [65], VContig 1 [66, 67]]),
        \<lparr>m_input = [0x26, 0x65, 0xe1, 0xa7, 0x9e, 0xec, 0x78, 0x82, 1, 0, 0, 0, 65, 2, 0, 0, 0, 66, 67],
           m_input_size = 19, m_offset = 19\<rparr>))"
    by code_simp
  have nc: "\<not> dynamic_cast_ok example_program ''student'' ''vehicle''"
    by (simp add: dynamic_cast_ok_def example_program_def)
  from polymorphic_mismatch_keeps_destination [where fuel = "Suc 0" and P = example_program
      and r = "register_types example_types empty_registry" and T = "''student''"
      and members = "[VContig 1 [65], VContig 1 [66, 67]]" and S = "''vehicle''" and k = shared_ptr
      and object = "VPolyNull shared_ptr"
      and a = "memory_view_input_archive
          [0x26, 0x65, 0xe1, 0xa7, 0x9e, 0xec, 0x78, 0x82, 1, 0, 0, 0, 65, 2, 0, 0, 0, 66, 67] 19"
      and a' = "\<lparr>m_input = [0x26, 0x65, 0xe1, 0xa7, 0x9e, 0xec, 0x78, 0x82, 1, 0, 0, 0, 65, 2, 0, 0, 0, 66, 67],
           m_input_size = 19, m_offset = 19\<rparr>"] reg nc
  show ?thesis by blast
qed

section \<open>The size prefix\<close>

text \<open>
  C9 as stated fails: a container of \<open>2 ^ 32\<close> elements is saved without any error and
  the stream claims a smaller count. By the contiguous handler the stream is the four
  zero bytes of an empty container; by the item-wise handler it is a prefix of zero
  followed by all \<open>2 ^ 32\<close> items.
\<close>

theorem oversized_container_saved_with_prefix_zero:
  "memory_output_archive_call
     (save example_program empty_registry (VContig 1 (replicate 4294967296 7)))
     (memory_output_archive []) =
   (None, \<lparr>m_output = [0, 0, 0, 0], m_size = 4\<rparr>) \<and>
   fst (memory_output_archive_call
     (save example_program empty_registry (VSeq (replicate 4294967296 (VScalar [7]))))
     (memory_output_archive [])) = None \<and>
   take 4 (m_output (snd (memory_output_archive_call
     (save example_program empty_registry (VSeq (replicate 4294967296 (VScalar [7]))))
     (memory_output_archive [])))) = [0, 0, 0, 0] \<and>
   m_size (snd (memory_output_archive_call
     (save example_program empty_registry (VSeq (replicate 4294967296 (VScalar [7]))))
     (memory_output_archive []))) = 4294967300"
proof -
  let ?P = example_program and ?r = empty_registry
  let ?a0 = "memory_output_archive []"
  define a1 where "a1 = serialize_item_out [0, 0, 0, 0] ?a0"
  have a1: "a1 = \<lparr>m_output = [0, 0, 0, 0, 0, 0], m_size = 4\<rparr>"
    unfolding a1_def by code_simp
  have z: "(4294967296 :: size_type) = 0" by simp
  have "save ?P ?r (VContig 1 (replicate 4294967296 7)) ?a0 = (None, a1)"
    by (simp add: z le_bytes_0_32 a1_def)
  then have c1: "memory_output_archive_call (save ?P ?r (VContig 1 (replicate 4294967296 7))) ?a0 =
      (None, \<lparr>m_output = [0, 0, 0, 0], m_size = 4\<rparr>)"
    by (simp add: memory_output_archive_call_def a1 fit_vector_def vector_resize_def)
  have f1: "fitted a1" and l1: "logical a1 = [0, 0, 0, 0]" and m1: "m_size a1 = 4"
    by (simp_all add: a1 fitted_def logical_def)
  define s where "s = serialize_items_out (replicate 4294967296 [7]) a1"
  have "save ?P ?r (VSeq (replicate 4294967296 (VScalar [7]))) ?a0 =
      save_items ?P ?r (map VScalar (replicate 4294967296 [7])) a1"
    by (simp add: z le_bytes_0_32 a1_def)
  then have sv: "save ?P ?r (VSeq (replicate 4294967296 (VScalar [7]))) ?a0 = s"
    by (simp only: save_items_scalars s_def)
  from serialize_items_out_logical [OF f1, of "replicate 4294967296 [7]"]
  have r: "fst s = None" "fitted (snd s)"
    "logical (snd s) = [0, 0, 0, 0] @ concat (replicate 4294967296 [7])"
    "m_size (snd s) = 4294967300"
    by (simp_all add: l1 m1 length_concat_replicate s_def)
  obtain a2 where a2: "s = (None, a2)" using r(1) by (cases s) auto
  with r have a2': "fitted a2" "logical a2 = [0, 0, 0, 0] @ concat (replicate 4294967296 [7])"
    "m_size a2 = 4294967300" by simp_all
  have c2: "memory_output_archive_call (save ?P ?r (VSeq (replicate 4294967296 (VScalar [7])))) ?a0
      = (None, \<lparr>m_output = logical a2, m_size = m_size a2\<rparr>)"
    unfolding memory_output_archive_call_def sv a2
    by (simp add: fit_vector_logical [OF a2'(1)])
  show ?thesis
    by (simp only: c1 c2 fst_conv snd_conv a2' lazy_vector_memory_output_archive.simps) simp
qed

text \<open>
  C9, amended. The prefix written for a resizable, an associative and a contiguous
  container is the element count converted to \<^verbatim>\<open>size_type\<close>, that is the count modulo
  \<open>2 ^ 32\<close>: it reads back as the count when the container has at most \<open>2 ^ 32 - 1\<close>
  elements. No handler checks the count.
\<close>

theorem size_prefix_is_count_mod_2_32:
  "(fitted a \<and> save P r (VSeq items) a = (e, a') \<longrightarrow>
      take 4 (drop (m_size a) (logical a')) = le_bytes (of_nat (length items) :: size_type)) \<and>
   (fitted a \<and> save P r (VAssoc items) a = (e, a') \<longrightarrow>
      take 4 (drop (m_size a) (logical a')) = le_bytes (of_nat (length items) :: size_type)) \<and>
   (fitted a \<and> save P r (VContig n data) a = (e, a') \<longrightarrow>
      take 4 (drop (m_size a) (logical a')) = le_bytes (of_nat (length data div n) :: size_type)) \<and>
   unat (le_word (le_bytes (of_nat c :: size_type)) :: size_type) = c mod 2 ^ 32 \<and>
   (c \<le> 2 ^ 32 - 1 \<longrightarrow> unat (le_word (le_bytes (of_nat c :: size_type)) :: size_type) = c)"
proof (intro conjI impI)
  assume h: "fitted a \<and> save P r (VSeq items) a = (e, a')"
  let ?p = "le_bytes (of_nat (length items) :: size_type)"
  from h have f: "fitted (serialize_item_out ?p a)" by (simp add: serialize_item_out_logical)
  from save_appends(2) [OF f, of P r items] h have "appends (serialize_item_out ?p a) a'" by simp
  from prefix_written [OF _ this] h show "take 4 (drop (m_size a) (logical a')) = ?p"
    by (simp add: length_le_bytes_32)
next
  assume h: "fitted a \<and> save P r (VAssoc items) a = (e, a')"
  let ?p = "le_bytes (of_nat (length items) :: size_type)"
  from h have f: "fitted (serialize_item_out ?p a)" by (simp add: serialize_item_out_logical)
  from save_appends(2) [OF f, of P r items] h have "appends (serialize_item_out ?p a) a'" by simp
  from prefix_written [OF _ this] h show "take 4 (drop (m_size a) (logical a')) = ?p"
    by (simp add: length_le_bytes_32)
next
  assume h: "fitted a \<and> save P r (VContig n data) a = (e, a')"
  let ?sz = "of_nat (length data div n) :: size_type"
  let ?p = "le_bytes ?sz"
  from h have f: "fitted (serialize_item_out ?p a)" by (simp add: serialize_item_out_logical)
  have "appends (serialize_item_out ?p a) a'"
  proof (cases "?sz = 0")
    case True
    with h f show ?thesis by (auto simp: appends_refl)
  next
    case False
    then have "0 < n" by (cases "n = 0") simp_all
    with f have "appends (serialize_item_out ?p a) (serialize_binary_out data (size_in_bytes n ?sz) (serialize_item_out ?p a))"
      by (simp add: appends_binary size_in_bytes_le)
    with h False show ?thesis by (auto simp: Let_def)
  qed
  from prefix_written [OF _ this] h show "take 4 (drop (m_size a) (logical a')) = ?p"
    by (simp add: length_le_bytes_32)
next
  show "unat (le_word (le_bytes (of_nat c :: size_type)) :: size_type) = c mod 2 ^ 32"
    by (simp add: le_word_le_bytes_32 unat_of_nat)
next
  assume "c \<le> 2 ^ 32 - 1"
  then show "unat (le_word (le_bytes (of_nat c :: size_type)) :: size_type) = c"
    by (simp add: le_word_le_bytes_32 unat_of_nat)
qed

theorem size_prefix_is_count_mod_2_32_witness:
  "save example_program empty_registry (VSeq [VScalar [7], VScalar [8]]) (memory_output_archive []) =
     (None, \<lparr>m_output = [2, 0, 0, 0, 7, 8], m_size = 6\<rparr>) \<and>
   save example_program empty_registry (VContig 1 [7, 8]) (memory_output_archive []) =
     (None, \<lparr>m_output = [2, 0, 0, 0, 7, 8], m_size = 6\<rparr>) \<and>
   take 4 (logical \<lparr>m_output = [2, 0, 0, 0, 7, 8], m_size = 6\<rparr>) = le_bytes (2 :: size_type) \<and>
   unat (le_word (le_bytes (2 :: size_type)) :: size_type) = 2"
proof -
  have s1: "save example_program empty_registry (VSeq [VScalar [7], VScalar [8]]) (memory_output_archive []) =
     (None, \<lparr>m_output = [2, 0, 0, 0, 7, 8], m_size = 6\<rparr>)" by code_simp
  have s2: "save example_program empty_registry (VAssoc [VScalar [7], VScalar [8]]) (memory_output_archive []) =
     (None, \<lparr>m_output = [2, 0, 0, 0, 7, 8], m_size = 6\<rparr>)" by code_simp
  have s3: "save example_program empty_registry (VContig 1 [7, 8]) (memory_output_archive []) =
     (None, \<lparr>m_output = [2, 0, 0, 0, 7, 8], m_size = 6\<rparr>)" by code_simp
  have f: "fitted (memory_output_archive [])" by (simp add: fitted_def memory_output_archive_def)
  from size_prefix_is_count_mod_2_32 [where a = "memory_output_archive []" and P = example_program and r = empty_registry
      and items = "[VScalar [7], VScalar [8]]" and e = None
      and a' = "\<lparr>m_output = [2, 0, 0, 0, 7, 8], m_size = 6\<rparr>" and n = 1 and data = "[7, 8]"
      and c = 2] s1 s2 s3 f
  show ?thesis by (simp add: memory_output_archive_def)
qed

section \<open>Saving, then loading\<close>








text \<open>The fuel a value needs: the nesting depth of polymorphic objects in it.\<close>

fun poly_depth :: "val \<Rightarrow> nat" where
  "poly_depth (VScalar item) = 0"
| "poly_depth (VArray items) = Max (set (0 # map poly_depth items))"
| "poly_depth (VTuple items) = Max (set (0 # map poly_depth items))"
| "poly_depth (VSeq items) = Max (set (0 # map poly_depth items))"
| "poly_depth (VContig n data) = 0"
| "poly_depth (VAssoc items) = Max (set (0 # map poly_depth items))"
| "poly_depth (VPtr k v) = poly_depth v"
| "poly_depth (VNull k) = 0"
| "poly_depth (VPolyPtr k D members) = Suc (Max (set (0 # map poly_depth members)))"
| "poly_depth (VPolyNull k) = 0"
| "poly_depth (VPolyRef D members) = Suc (Max (set (0 # map poly_depth members)))"

text \<open>
  The bytes \<open>bs\<close> lie at the cursor of the view, which covers its whole input;
  \<open>advance n\<close> moves the cursor \<open>n\<close> bytes on.
\<close>

definition holds_at :: "memory_view_input_archive \<Rightarrow> byte list \<Rightarrow> bool" where
  "holds_at a bs = (m_input_size a = length (m_input a) \<and>
     m_offset a + length bs \<le> length (m_input a) \<and>
     take (length bs) (drop (m_offset a) (m_input a)) = bs)"




lemma holds_at_Nil: "holds_at a bs \<Longrightarrow> holds_at a []"
  by (simp add: holds_at_def)




lemma poly_depth_member:
  "v \<in> set vs \<Longrightarrow> poly_depth v \<le> Max (set (0 # map poly_depth vs))"
  by simp















text \<open>The archive \<open>a'\<close> is \<open>a\<close> with exactly the bytes \<open>bs\<close> appended.\<close>

definition written ::
  "lazy_vector_memory_output_archive \<Rightarrow> byte list \<Rightarrow> lazy_vector_memory_output_archive \<Rightarrow> bool" where
  "written a bs a' = (fitted a' \<and> logical a' = logical a @ bs \<and> m_size a' = m_size a + length bs)"














text \<open>
  The case \<open>whole_payload\<close> leaves out: \<open>2 ^ 29\<close> items of eight bytes. The count
  is in range and is written; the size in bytes wraps to zero and no item is written.
\<close>

lemma contiguous_payload_cut_short:
  "memory_output_archive_call
     (save example_program empty_registry (VContig 8 (replicate 4294967296 7)))
     (memory_output_archive []) =
   (None, memory_output_archive [0, 0, 0, 32])"
proof -
  let ?P = example_program and ?r = empty_registry
  let ?a0 = "memory_output_archive []"
  define a1 where "a1 = serialize_item_out [0, 0, 0, 32] ?a0"
  have a1: "a1 = \<lparr>m_output = [0, 0, 0, 32, 0, 0], m_size = 4\<rparr>"
    unfolding a1_def by code_simp
  have p: "le_bytes (536870912 :: size_type) = [0, 0, 0, 32]" by code_simp
  have sz: "size_in_bytes 8 (536870912 :: size_type) = 0" by (simp add: size_in_bytes_def)
  have b: "serialize_binary_out data 0 a1 = a1" for data
    by (simp add: serialize_binary_out_def a1 copy_n_def)
  have "save ?P ?r (VContig 8 (replicate 4294967296 7)) ?a0 = (None, a1)"
    by (simp add: p sz b a1_def [symmetric])
  then show ?thesis
    by (simp add: memory_output_archive_call_def a1 fit_vector_def vector_resize_def
        memory_output_archive_def)
qed



section \<open>The type-tag hasher\<close>

text \<open>
  \<^verbatim>\<open>swap_byte_order\<close> for the four widths (lines 269-299) and \<^verbatim>\<open>rotate_left\<close> (lines
  304-308), which the code instantiates for \<^verbatim>\<open>std::uint32_t\<close> only.
\<close>

type_synonym uint8 = "8 word"
type_synonym uint16 = "16 word"
type_synonym uint32 = "32 word"
type_synonym uint64 = "64 word"

definition swap_byte_order8 :: "uint8 \<Rightarrow> uint8" where
  "swap_byte_order8 v = v"

definition swap_byte_order16 :: "uint16 \<Rightarrow> uint16" where
  "swap_byte_order16 v =
     push_bit 8 (ucast (swap_byte_order8 (ucast v))) OR ucast (swap_byte_order8 (ucast (drop_bit 8 v)))"

definition swap_byte_order32 :: "uint32 \<Rightarrow> uint32" where
  "swap_byte_order32 v =
     push_bit 16 (ucast (swap_byte_order16 (ucast v))) OR ucast (swap_byte_order16 (ucast (drop_bit 16 v)))"

definition swap_byte_order64 :: "uint64 \<Rightarrow> uint64" where
  "swap_byte_order64 v =
     push_bit 32 (ucast (swap_byte_order32 (ucast v))) OR ucast (swap_byte_order32 (ucast (drop_bit 32 v)))"

definition rotate_left :: "uint32 \<Rightarrow> nat \<Rightarrow> uint32" where
  "rotate_left number count' = push_bit count' number OR drop_bit (32 - count') number"

text \<open>
  \<^verbatim>\<open>std::uint32_t(name[i])\<close>: where \<^verbatim>\<open>char\<close> is signed, a character above 127 is
  sign-extended.
\<close>

definition char_to_uint32 :: "char \<Rightarrow> uint32" where
  "char_to_uint32 c =
     (if (of_char c :: nat) < 128 then of_nat (of_char c) else of_nat (of_char c) + 0xFFFFFF00)"

text \<open>
  \<^verbatim>\<open>make_id\<close> (lines 1860-1953). The argument is the name without its terminating
  null, so \<^verbatim>\<open>size\<close> is \<open>length name + 1\<close>. Arrays are lists, updated by index; each
  \<^verbatim>\<open>for\<close> loop is a \<open>fold\<close> over its range of indices. \<open>preprocess\<close> builds
  \<^verbatim>\<open>preprocessed_message\<close>, \<open>extend_words\<close> is the loop that extends the sixteen words
  to eighty, \<open>round\<close> is one turn of the main loop and \<open>process_chunk\<close> the body of the loop
  over the chunks.
\<close>

definition aligned_message_size :: "nat \<Rightarrow> nat" where
  "aligned_message_size sz = (((sz + 8) + 63) div 64) * 64"

definition preprocess :: "string \<Rightarrow> uint32 list" where
  "preprocess name =
     (let sz = length name + 1;
          message_size = (of_nat ((sz - 1) * 8) :: uint64);
          words = aligned_message_size sz div 4;
          m0 = replicate words 0;
          m1 = fold (\<lambda>i m. m[i div 4 := m ! (i div 4) OR
                     swap_byte_order32 (push_bit ((3 - i mod 4) * 8) (char_to_uint32 (name ! i)))])
                 [0..<sz - 1] m0;
          m2 = m1[(sz - 1) div 4 := m1 ! ((sz - 1) div 4) OR
                     swap_byte_order32 (push_bit ((3 - (sz - 1) mod 4) * 8) 0x80)];
          m3 = m2[words - 2 := swap_byte_order32 (ucast (drop_bit 32 message_size))]
      in m3[words - 1 := swap_byte_order32 (ucast message_size)])"

definition extend_words :: "uint32 list \<Rightarrow> uint32 list" where
  "extend_words w =
     fold (\<lambda>j w. w[j := swap_byte_order32 (rotate_left (swap_byte_order32
              (w ! (j - 3) XOR w ! (j - 8) XOR w ! (j - 14) XOR w ! (j - 16))) 1)])
       [16..<80] w"

type_synonym sha_state = "uint32 \<times> uint32 \<times> uint32 \<times> uint32 \<times> uint32"

definition round :: "uint32 list \<Rightarrow> nat \<Rightarrow> sha_state \<Rightarrow> sha_state" where
  "round w j s =
     (case s of (a, b, c, d, e) \<Rightarrow>
        let (f, k) =
              (if j \<le> 19 then ((b AND c) OR (NOT b AND d), 0x5A827999)
               else if j \<le> 39 then (b XOR c XOR d, 0x6ED9EBA1)
               else if j \<le> 59 then ((b AND c) OR (b AND d) OR (c AND d), 0x8F1BBCDC)
               else (b XOR c XOR d, 0xCA62C1D6));
            temp = rotate_left a 5 + f + e + k + swap_byte_order32 (w ! j)
        in (temp, a, rotate_left b 30, c, d))"

definition process_chunk :: "uint32 list \<Rightarrow> nat \<Rightarrow> sha_state \<Rightarrow> sha_state" where
  "process_chunk preprocessed_message i h =
     (case h of (h0, h1, h2, h3, h4) \<Rightarrow>
        let w0 = replicate 80 0;
            w1 = fold (\<lambda>j w. w[j := preprocessed_message ! (i + j)]) [0..<16] w0;
            w = extend_words w1
        in case fold (round w) [0..<80] (h0, h1, h2, h3, h4) of
             (a, b, c, d, e) \<Rightarrow> (h0 + a, h1 + b, h2 + c, h3 + d, h4 + e))"

definition make_id :: "string \<Rightarrow> id_type" where
  "make_id name =
     (let preprocessed_message = preprocess name;
          h = (0x67452301, 0xEFCDAB89, 0x98BADCFE, 0x10325476, 0xC3D2E1F0)
      in case fold (process_chunk preprocessed_message)
                (map (\<lambda>k. 16 * k) [0..<length preprocessed_message div 16]) h of
           (h0, h1, h2, h3, h4) \<Rightarrow> swap_byte_order64 (push_bit 32 (ucast h0) OR ucast h1))"

text \<open>
  The standard SHA-1 (FIPS 180-4, section 6.1), to compare \<^verbatim>\<open>make_id\<close> with: padding,
  big-endian words, the message schedule \<open>W\<close>, the eighty steps with their functions and
  constants, and the digest as twenty big-endian bytes.
\<close>

definition be_word32 :: "byte list \<Rightarrow> uint32" where
  "be_word32 bs = foldl (\<lambda>w b. push_bit 8 w OR ucast b) 0 bs"

definition be_bytes :: "'a::len word \<Rightarrow> byte list" where
  "be_bytes w = rev (le_bytes w)"

definition sha1_pad :: "byte list \<Rightarrow> byte list" where
  "sha1_pad msg =
     msg @ [0x80] @ replicate ((64 - (length msg + 9) mod 64) mod 64) 0 @
     be_bytes (of_nat (8 * length msg) :: uint64)"

fun sha1_words :: "byte list \<Rightarrow> uint32 list" where
  "sha1_words (b0 # b1 # b2 # b3 # bs) = be_word32 [b0, b1, b2, b3] # sha1_words bs"
| "sha1_words bs = []"

fun sha1_W :: "uint32 list \<Rightarrow> nat \<Rightarrow> uint32" where
  "sha1_W M t =
     (if t < 16 then M ! t
      else word_rotl 1 (sha1_W M (t - 3) XOR sha1_W M (t - 8) XOR sha1_W M (t - 14) XOR sha1_W M (t - 16)))"

declare sha1_W.simps [simp del]

definition sha1_f :: "nat \<Rightarrow> uint32 \<Rightarrow> uint32 \<Rightarrow> uint32 \<Rightarrow> uint32" where
  "sha1_f t x y z =
     (if t < 20 then (x AND y) OR (NOT x AND z)
      else if t < 40 then x XOR y XOR z
      else if t < 60 then (x AND y) OR (x AND z) OR (y AND z)
      else x XOR y XOR z)"

definition sha1_K :: "nat \<Rightarrow> uint32" where
  "sha1_K t =
     (if t < 20 then 0x5A827999 else if t < 40 then 0x6ED9EBA1
      else if t < 60 then 0x8F1BBCDC else 0xCA62C1D6)"

definition sha1_step :: "uint32 list \<Rightarrow> nat \<Rightarrow> sha_state \<Rightarrow> sha_state" where
  "sha1_step M t s =
     (case s of (a, b, c, d, e) \<Rightarrow>
        (word_rotl 5 a + sha1_f t b c d + e + sha1_K t + sha1_W M t, a, word_rotl 30 b, c, d))"

definition sha1_block :: "uint32 list \<Rightarrow> sha_state \<Rightarrow> sha_state" where
  "sha1_block M H =
     (case H of (h0, h1, h2, h3, h4) \<Rightarrow>
        case fold (sha1_step M) [0..<80] H of
          (a, b, c, d, e) \<Rightarrow> (h0 + a, h1 + b, h2 + c, h3 + d, h4 + e))"

definition sha1 :: "byte list \<Rightarrow> byte list" where
  "sha1 msg =
     (let ws = sha1_words (sha1_pad msg)
      in case fold (\<lambda>i. sha1_block (take 16 (drop (16 * i) ws))) [0..<length ws div 16]
                (0x67452301, 0xEFCDAB89, 0x98BADCFE, 0x10325476, 0xC3D2E1F0) of
           (h0, h1, h2, h3, h4) \<Rightarrow> concat (map be_bytes [h0, h1, h2, h3, h4]))"

definition byte_of_char :: "char \<Rightarrow> byte" where
  "byte_of_char c = of_nat (of_char c)"


text \<open>
  The name is ASCII; the bytes of the array of words as they lie in memory on the host;
  one turn of the loop that copies the name into the array.
\<close>

definition ascii :: "string \<Rightarrow> bool" where
  "ascii name = list_all (\<lambda>c. (of_char c :: nat) < 128) name"


definition memory_of :: "uint32 list \<Rightarrow> byte list" where
  "memory_of ws = concat (map le_bytes ws)"


definition fill_step :: "string \<Rightarrow> nat \<Rightarrow> uint32 list \<Rightarrow> uint32 list" where
  "fill_step name i m = m[i div 4 := m ! (i div 4) OR
      swap_byte_order32 (push_bit ((3 - i mod 4) * 8) (char_to_uint32 (name ! i)))]"


subsection \<open>Byte swaps and rotations, bit by bit\<close>

lemma bit_swap16:
  "bit (swap_byte_order16 w) n = (n < 16 \<and> bit w (if n < 8 then n + 8 else n - 8))"
  unfolding swap_byte_order16_def swap_byte_order8_def
  by (auto simp add: bit_simps add.commute)

lemma bit_swap32:
  "bit (swap_byte_order32 w) n =
     (n < 32 \<and> bit w (if n < 8 then n + 24 else if n < 16 then n + 8 else if n < 24 then n - 8 else n - 24))"
  unfolding swap_byte_order32_def
  by (auto simp add: bit_simps bit_swap16 add.commute)

lemma bit_swap64:
  "bit (swap_byte_order64 w) n =
     (n < 64 \<and> bit w (if n < 8 then n + 56 else if n < 16 then n + 40 else if n < 24 then n + 24
        else if n < 32 then n + 8 else if n < 40 then n - 8 else if n < 48 then n - 24
        else if n < 56 then n - 40 else n - 56))"
  unfolding swap_byte_order64_def
  by (auto simp add: bit_simps bit_swap32 add.commute)

lemma swap32_swap32 [simp]: "swap_byte_order32 (swap_byte_order32 w) = w"
  by (rule bit_word_eqI) (auto simp add: bit_swap32)

lemma swap32_xor: "swap_byte_order32 (x XOR y) = swap_byte_order32 x XOR swap_byte_order32 y"
  by (rule bit_word_eqI) (auto simp add: bit_swap32 bit_simps)

lemma bit_rotate_left:
  "0 < n \<Longrightarrow> n < 32 \<Longrightarrow> k < 32 \<Longrightarrow>
   bit (rotate_left w n) k = (if k < n then bit w (k + 32 - n) else bit w (k - n))"
  by (auto simp add: rotate_left_def bit_simps add.commute dest: bit_imp_le_length)

lemma bit_word_rotl_32:
  assumes "0 < n" and "n < 32" and "k < 32"
  shows "bit (word_rotl n (w :: uint32)) k = (if k < n then bit w (k + 32 - n) else bit w (k - n))"
proof -
  have "(k + (32 - n mod 32)) mod 32 = (if k < n then k + 32 - n else k - n)"
    using assms by (auto simp add: mod_if)
  with assms show ?thesis by (simp add: bit_word_rotl_iff)
qed

lemma rotate_left_rotl:
  "0 < n \<Longrightarrow> n < 32 \<Longrightarrow> rotate_left w n = word_rotl n w"
  by (rule bit_word_eqI) (simp add: bit_rotate_left bit_word_rotl_32)

lemma le_bytes_swap32: "le_bytes (swap_byte_order32 w) = be_bytes w"
  unfolding be_bytes_def le_bytes_32
  by (simp, intro conjI; rule bit_word_eqI) (auto simp add: bit_simps bit_swap32 add.commute)

lemma be_word32_le_bytes: "be_word32 (le_bytes w) = swap_byte_order32 w"
  unfolding le_bytes_32 be_word32_def
  by (rule bit_word_eqI) (auto simp add: bit_simps bit_swap32 add.commute)

lemma le_bytes_id: 
  "le_bytes (swap_byte_order64 (push_bit 32 (ucast (h0 :: uint32)) OR ucast (h1 :: uint32))) =
     be_bytes h0 @ be_bytes h1"
  unfolding be_bytes_def le_bytes_32 le_bytes_64
  by (simp, intro conjI; rule bit_word_eqI)
    (auto simp add: bit_simps bit_swap64 add.commute dest: bit_imp_le_length)

lemma be_bytes_64_split:
  "be_bytes (w :: uint64) = be_bytes (ucast (drop_bit 32 w) :: uint32) @ be_bytes (ucast w :: uint32)"
  unfolding be_bytes_def le_bytes_32 le_bytes_64
  by (simp, intro conjI; rule bit_word_eqI) (auto simp add: bit_simps add.commute)

lemma byte_or:
  assumes "a < 4" and "b < 4"
  shows "(ucast (drop_bit (8 * a) (x OR push_bit (8 * b) (ucast (c :: byte) :: uint32))) :: byte) =
     ucast (drop_bit (8 * a) x) OR (if a = b then c else 0)"
proof (rule bit_word_eqI)
  fix n assume "n < LENGTH(8)"
  with assms show "bit (ucast (drop_bit (8 * a) (x OR push_bit (8 * b) (ucast c :: uint32))) :: byte) n =
      bit (ucast (drop_bit (8 * a) x) OR (if a = b then c else 0) :: byte) n"
    by (auto simp add: bit_simps dest: bit_imp_le_length)
qed

lemma swap32_push_byte:
  assumes "j < 4"
  shows "swap_byte_order32 (push_bit ((3 - j) * 8) (ucast (c :: byte))) = push_bit (8 * j) (ucast c)"
proof -
  from assms consider "j = 0" | "j = 1" | "j = 2" | "j = 3" by linarith
  then show ?thesis
    by cases ((rule bit_word_eqI, auto simp add: bit_simps bit_swap32 dest: bit_imp_le_length)[1])+
qed

subsection \<open>The message schedule and the eighty steps\<close>

lemma fold_update_map:
  "n \<le> length w0 \<Longrightarrow> fold (\<lambda>j w. w[j := f j]) [0..<n] w0 = map f [0..<n] @ drop n w0"
proof (induction n)
  case 0
  then show ?case by simp
next
  case (Suc n)
  then have "drop n w0 = w0 ! n # drop (Suc n) w0"
    by (simp add: Cons_nth_drop_Suc)
  with Suc show ?case by (simp add: list_update_append)
qed

lemma sha1_W_lt: "t < 16 \<Longrightarrow> sha1_W M t = M ! t"
  by (subst sha1_W.simps) simp

lemma sha1_W_ge:
  "16 \<le> t \<Longrightarrow> sha1_W M t = word_rotl 1 (sha1_W M (t - 3) XOR sha1_W M (t - 8) XOR
      sha1_W M (t - 14) XOR sha1_W M (t - 16))"
  by (subst sha1_W.simps) simp

lemma extend_invariant:
  assumes "length block = 16" and "16 \<le> n" and "n \<le> 80"
  shows "fold (\<lambda>j w. w[j := swap_byte_order32 (rotate_left (swap_byte_order32
              (w ! (j - 3) XOR w ! (j - 8) XOR w ! (j - 14) XOR w ! (j - 16))) 1)])
           [16..<n] (block @ replicate 64 0) =
         map (\<lambda>t. swap_byte_order32 (sha1_W (map swap_byte_order32 block) t)) [0..<n] @
         replicate (80 - n) 0"
  using assms(2,3)
proof (induction n rule: dec_induct)
  case base
  have "map (\<lambda>t. swap_byte_order32 (sha1_W (map swap_byte_order32 block) t)) [0..<16] = block"
    using assms(1) by (intro nth_equalityI) (simp_all add: sha1_W_lt del: upt_rec_numeral)
  then show ?case by simp
next
  case (step n)
  let ?M = "map swap_byte_order32 block"
  let ?g = "\<lambda>t. swap_byte_order32 (sha1_W ?M t)"
  let ?w = "map ?g [0..<n] @ replicate (80 - n) 0"
  from step have n: "16 \<le> n" "n < 80" by simp_all
  have nth: "?w ! k = ?g k" if "k < n" for k
    using that by (simp add: nth_append)
  have W: "sha1_W ?M n = word_rotl 1 (sha1_W ?M (n - 3) XOR sha1_W ?M (n - 8) XOR
      sha1_W ?M (n - 14) XOR sha1_W ?M (n - 16))"
    using n(1) by (rule sha1_W_ge)
  have "swap_byte_order32 (rotate_left (swap_byte_order32
      (?w ! (n - 3) XOR ?w ! (n - 8) XOR ?w ! (n - 14) XOR ?w ! (n - 16))) 1) = ?g n"
    using n by (simp add: nth swap32_xor W rotate_left_rotl del: upt_rec_numeral)
  moreover have "?w[n := ?g n] = map ?g [0..<Suc n] @ replicate (80 - Suc n) 0"
  proof -
    from n have "replicate (80 - n) (0 :: uint32) = 0 # replicate (80 - Suc n) 0"
      by (simp add: Suc_diff_Suc flip: replicate_Suc)
    then show ?thesis by (simp add: list_update_append del: upt_rec_numeral)
  qed
  ultimately show ?case using step n by (simp del: upt_rec_numeral)
qed

lemma extend_eq:
  "length block = 16 \<Longrightarrow>
   extend_words (block @ replicate 64 0) =
     map (\<lambda>t. swap_byte_order32 (sha1_W (map swap_byte_order32 block) t)) [0..<80]"
  using extend_invariant [of block 80] by (simp add: extend_words_def del: upt_rec_numeral)

lemma round_eq_step:
  assumes "swap_byte_order32 (w ! j) = sha1_W M j"
  shows "round w j s = sha1_step M j s"
  using assms
  by (cases s) (simp add: round_def sha1_step_def sha1_f_def sha1_K_def rotate_left_rotl Let_def)

lemma process_chunk_eq:
  assumes "i + 16 \<le> length pm"
  shows "process_chunk pm i H = sha1_block (map swap_byte_order32 (take 16 (drop i pm))) H"
proof -
  let ?block = "take 16 (drop i pm)"
  let ?M = "map swap_byte_order32 ?block"
  from assms have len: "length ?block = 16" by simp
  have "fold (\<lambda>j w. w[j := pm ! (i + j)]) [0..<16] (replicate 80 0) =
      map (\<lambda>j. pm ! (i + j)) [0..<16] @ replicate 64 0"
    using fold_update_map [of 16 "replicate 80 (0 :: uint32)" "\<lambda>j. pm ! (i + j)"]
    by (simp del: upt_rec_numeral)
  moreover have "map (\<lambda>j. pm ! (i + j)) [0..<16] = ?block"
    using assms by (intro nth_equalityI) (simp_all del: upt_rec_numeral)
  ultimately have w: "extend_words (fold (\<lambda>j w. w[j := pm ! (i + j)]) [0..<16] (replicate 80 0)) =
      map (\<lambda>t. swap_byte_order32 (sha1_W ?M t)) [0..<80]"
    using extend_eq [OF len] by (simp del: upt_rec_numeral)
  have "fold (round (map (\<lambda>t. swap_byte_order32 (sha1_W ?M t)) [0..<80])) [0..<80] s =
      fold (sha1_step ?M) [0..<80] s" for s
    by (rule fold_cong) (auto intro!: round_eq_step simp del: upt_rec_numeral)
  with w show ?thesis
    by (cases H) (simp add: process_chunk_def sha1_block_def Let_def del: upt_rec_numeral)
qed

subsection \<open>The array of words in memory\<close>

lemma length_memory_of [simp]: "length (memory_of ws) = 4 * length ws"
  by (induction ws) (simp_all add: memory_of_def length_le_bytes_32)

lemma memory_of_Cons: "memory_of (w # ws) = le_bytes w @ memory_of ws"
  by (simp add: memory_of_def)

lemma nth_le_bytes_32: "i < 4 \<Longrightarrow> le_bytes (w :: uint32) ! i = ucast (drop_bit (8 * i) w)"
  by (simp add: le_bytes_def del: upt_rec_numeral)

lemma nth_memory_of:
  "i < 4 * length ws \<Longrightarrow> memory_of ws ! i = ucast (drop_bit (8 * (i mod 4)) (ws ! (i div 4)))"
proof (induction ws arbitrary: i)
  case Nil
  then show ?case by simp
next
  case (Cons w ws)
  show ?case
  proof (cases "i < 4")
    case True
    then show ?thesis
      by (simp add: memory_of_Cons nth_append length_le_bytes_32 nth_le_bytes_32)
  next
    case False
    then have m: "i mod 4 = (i - 4) mod 4" and d: "i div 4 = Suc ((i - 4) div 4)"
      by (simp_all add: le_mod_geq le_div_geq)
    from False Cons.prems have "i - 4 < 4 * length ws" by simp
    from Cons.IH [OF this] False show ?thesis
      by (simp add: memory_of_Cons nth_append length_le_bytes_32 m d)
  qed
qed

lemma memory_of_or:
  assumes i: "i < 4 * length ws" and z: "memory_of ws ! i = 0"
  shows "memory_of (ws[i div 4 := ws ! (i div 4) OR push_bit (8 * (i mod 4)) (ucast c)]) =
         (memory_of ws)[i := c]"
proof (rule nth_equalityI)
  show "length (memory_of (ws[i div 4 := ws ! (i div 4) OR push_bit (8 * (i mod 4)) (ucast c)])) =
      length ((memory_of ws)[i := c])" by simp
next
  fix p assume "p < length (memory_of (ws[i div 4 := ws ! (i div 4) OR push_bit (8 * (i mod 4)) (ucast c)]))"
  then have p: "p < 4 * length ws" by simp
  let ?ws' = "ws[i div 4 := ws ! (i div 4) OR push_bit (8 * (i mod 4)) (ucast c)]"
  have p4: "p div 4 < length ws" and i4: "i div 4 < length ws" using p i by simp_all
  show "memory_of ?ws' ! p = (memory_of ws)[i := c] ! p"
  proof (cases "p div 4 = i div 4")
    case False
    then have "p \<noteq> i" by auto
    with False p i show ?thesis by (simp add: nth_memory_of)
  next
    case True
    have "memory_of ?ws' ! p =
        ucast (drop_bit (8 * (p mod 4)) (ws ! (i div 4) OR push_bit (8 * (i mod 4)) (ucast c)))"
      using p True i4 by (simp add: nth_memory_of)
    also have "\<dots> = ucast (drop_bit (8 * (p mod 4)) (ws ! (i div 4))) OR
        (if p mod 4 = i mod 4 then c else 0)"
      by (rule byte_or) simp_all
    finally have "memory_of ?ws' ! p = memory_of ws ! p OR (if p mod 4 = i mod 4 then c else 0)"
      using p True by (simp add: nth_memory_of)
    moreover have "p = i \<longleftrightarrow> p mod 4 = i mod 4"
      using True by (metis div_mult_mod_eq)
    ultimately show ?thesis using z p i by (cases "p = i") simp_all
  qed
qed

lemma memory_of_update:
  assumes "k < length ws"
  shows "memory_of (ws[k := v]) = take (4 * k) (memory_of ws) @ le_bytes v @ drop (4 * k + 4) (memory_of ws)"
  using assms
proof (induction ws arbitrary: k)
  case Nil
  then show ?case by simp
next
  case (Cons w ws)
  show ?case
  proof (cases k)
    case 0
    then show ?thesis by (simp add: memory_of_Cons length_le_bytes_32)
  next
    case (Suc j)
    with Cons.prems have "j < length ws" by simp
    from Cons.IH [OF this] Suc show ?thesis
      by (simp add: memory_of_Cons length_le_bytes_32 add.commute)
  qed
qed

lemma sha1_words_memory_of: "sha1_words (memory_of ws) = map swap_byte_order32 ws"
proof (induction ws)
  case Nil
  then show ?case by (simp add: memory_of_def)
next
  case (Cons w ws)
  have "sha1_words (le_bytes w @ bs) = be_word32 (le_bytes w) # sha1_words bs" for bs
    by (simp add: le_bytes_32)
  with Cons show ?case by (simp add: memory_of_Cons be_word32_le_bytes)
qed

subsection \<open>Preprocessing is the padding of the standard\<close>

lemma char_to_uint32_ascii:
  "(of_char c :: nat) < 128 \<Longrightarrow> char_to_uint32 c = ucast (byte_of_char c)"
  by (simp add: char_to_uint32_def byte_of_char_def word_eq_iff_unsigned [where ?'a = nat]
      unsigned_ucast_eq unsigned_of_nat take_bit_nat_eq_self)

lemma aligned_props:
  "64 dvd aligned_message_size (Suc n)"
  "n + 9 \<le> aligned_message_size (Suc n)"
  "aligned_message_size (Suc n) - (n + 9) = (64 - (n + 9) mod 64) mod 64"
proof -
  define q where "q = n + 9"
  define d r where "d = q div 64" and "r = q mod 64"
  have q: "q = 64 * d + r" and r: "r < 64" by (simp_all add: d_def r_def)
  have A: "aligned_message_size (Suc n) = ((q + 63) div 64) * 64"
    by (simp add: aligned_message_size_def q_def)
  show "64 dvd aligned_message_size (Suc n)" by (simp add: A)
  show "n + 9 \<le> aligned_message_size (Suc n)"
    unfolding A q_def [symmetric] by (simp add: div_mult_self2 algebra_simps)
  have "((q + 63) div 64) * 64 - q = (64 - r) mod 64"
  proof (cases "r = 0")
    case True
    then show ?thesis by (simp add: q)
  next
    case False
    with r have "(r + 63) div 64 = 1" by simp
    then have "(64 * d + r + 63) div 64 = d + 1"
      by (simp add: add.assoc)
    with False r show ?thesis by (simp add: q)
  qed
  then show "aligned_message_size (Suc n) - (n + 9) = (64 - (n + 9) mod 64) mod 64"
    by (simp add: A q_def r_def)
qed

lemma or_byte_into_zeros:
  assumes len: "4 * length m = A" and k: "k < A"
    and mem: "memory_of m = pre @ replicate (A - k) 0" and pre: "length pre = k"
  shows "length (m[k div 4 := m ! (k div 4) OR
            swap_byte_order32 (push_bit ((3 - k mod 4) * 8) (ucast (c :: byte)))]) = length m"
    and "memory_of (m[k div 4 := m ! (k div 4) OR
            swap_byte_order32 (push_bit ((3 - k mod 4) * 8) (ucast c))]) =
         (pre @ [c]) @ replicate (A - Suc k) 0"
proof -
  show "length (m[k div 4 := m ! (k div 4) OR
            swap_byte_order32 (push_bit ((3 - k mod 4) * 8) (ucast (c :: byte)))]) = length m" by simp
  from k len have k4: "k < 4 * length m" by simp
  from mem pre k have z: "memory_of m ! k = 0" by (simp add: nth_append)
  have "swap_byte_order32 (push_bit ((3 - k mod 4) * 8) (ucast c)) = push_bit (8 * (k mod 4)) (ucast c)"
    by (rule swap32_push_byte) simp
  then have "memory_of (m[k div 4 := m ! (k div 4) OR
            swap_byte_order32 (push_bit ((3 - k mod 4) * 8) (ucast c))]) = (memory_of m)[k := c]"
    using memory_of_or [OF k4 z, of c] by simp
  also have "\<dots> = pre @ (replicate (A - k) 0)[0 := c]"
    using pre by (simp add: mem list_update_append)
  also from k have "replicate (A - k) (0 :: byte) = 0 # replicate (A - Suc k) 0"
    by (simp add: Suc_diff_Suc flip: replicate_Suc)
  finally show "memory_of (m[k div 4 := m ! (k div 4) OR
            swap_byte_order32 (push_bit ((3 - k mod 4) * 8) (ucast c))]) =
         (pre @ [c]) @ replicate (A - Suc k) 0" by simp
qed

lemma replicate_4: "replicate 4 x = [x, x, x, x]"
  by (simp add: numeral_eq_Suc)

lemma memory_of_zeros: "memory_of (replicate n 0) = replicate (4 * n) 0"
proof (induction n)
  case 0
  then show ?case by (simp add: memory_of_def)
next
  case (Suc n)
  have "replicate (4 * Suc n) (0 :: byte) = replicate 4 0 @ replicate (4 * n) 0"
    by (simp add: replicate_add [symmetric] del: replicate_Suc)
  with Suc show ?case by (simp add: memory_of_Cons le_bytes_32 replicate_4)
qed

lemma fill_invariant:
  assumes a: "ascii name" and A: "4 * words = A" "length name < A" and k: "k \<le> length name"
  shows "length (fold (fill_step name) [0..<k] (replicate words 0)) = words \<and>
         memory_of (fold (fill_step name) [0..<k] (replicate words 0)) =
           take k (map byte_of_char name) @ replicate (A - k) 0"
  using k
proof (induction k)
  case 0
  from A show ?case by (simp add: memory_of_zeros)
next
  case (Suc k)
  let ?m = "fold (fill_step name) [0..<k] (replicate words 0)"
  let ?pre = "take k (map byte_of_char name)"
  from Suc have IH: "length ?m = words" "memory_of ?m = ?pre @ replicate (A - k) 0" by simp_all
  from Suc.prems have kn: "k < length name" by simp
  with a have "(of_char (name ! k) :: nat) < 128" by (simp add: ascii_def list_all_length)
  then have c: "char_to_uint32 (name ! k) = ucast (byte_of_char (name ! k))"
    by (rule char_to_uint32_ascii)
  from kn A have kA: "k < A" by simp
  from kn have lp: "length ?pre = k" by simp
  from IH(1) A have len: "4 * length ?m = A" by simp
  note or = or_byte_into_zeros [OF len kA IH(2) lp, of "byte_of_char (name ! k)"]
  have step: "fold (fill_step name) [0..<Suc k] (replicate words 0) = fill_step name k ?m" by simp
  from kn have "take (Suc k) (map byte_of_char name) = ?pre @ [byte_of_char (name ! k)]"
    by (simp add: take_Suc_conv_app_nth)
  moreover have "fill_step name k ?m = ?m[k div 4 := ?m ! (k div 4) OR
      swap_byte_order32 (push_bit ((3 - k mod 4) * 8) (ucast (byte_of_char (name ! k))))]"
    by (simp only: fill_step_def c)
  ultimately show ?case using or IH(1) by (simp only: step)
qed


lemma preprocess_memory:
  assumes a: "ascii name"
  shows "length (preprocess name) = aligned_message_size (Suc (length name)) div 4"
    and "memory_of (preprocess name) = sha1_pad (map byte_of_char name)"
proof -
  let ?n = "length name"
  let ?msg = "map byte_of_char name"
  define A where "A = aligned_message_size (Suc ?n)"
  define words where "words = A div 4"
  define ms where "ms = (of_nat (?n * 8) :: uint64)"
  from aligned_props [of ?n] have A64: "64 dvd A" and An: "?n + 9 \<le> A"
    and Az: "A - (?n + 9) = (64 - (?n + 9) mod 64) mod 64" by (simp_all add: A_def)
  from A64 have "4 dvd A" by (rule dvd_trans [rotated]) simp
  then have W: "4 * words = A" by (simp add: words_def)
  from An have nA: "?n < A" by simp
  define m1 where "m1 = fold (fill_step name) [0..<?n] (replicate words 0)"
  from fill_invariant [OF a W nA le_refl]
  have m1: "length m1 = words" "memory_of m1 = ?msg @ replicate (A - ?n) 0"
    by (simp_all add: m1_def)
  define m2 where "m2 = m1[?n div 4 := m1 ! (?n div 4) OR
      swap_byte_order32 (push_bit ((3 - ?n mod 4) * 8) 0x80)]"
  have "length ?msg = ?n" by simp
  from or_byte_into_zeros [OF _ nA m1(2) this, of "0x80"] m1(1) W
  have m2: "length m2 = words" "memory_of m2 = (?msg @ [0x80]) @ replicate (A - Suc ?n) 0"
    by (simp_all add: m2_def)
  define m3 where "m3 = m2[words - 2 := swap_byte_order32 (ucast (drop_bit 32 ms))]"
  define m4 where "m4 = m3[words - 1 := swap_byte_order32 (ucast ms)]"
  from An W have w2: "2 \<le> words" by simp
  have m3: "length m3 = words" by (simp add: m3_def m2(1))
  define mem2 where "mem2 = memory_of m2"
  have l2: "length mem2 = A" using m2(1) W by (simp add: mem2_def)
  from w2 W have i2: "4 * (words - 2) = A - 8" and i1: "4 * (words - 1) = A - 4" by simp_all
  from An have A8: "8 \<le> A" by simp
  then have e: "A - 8 + 4 = A - 4" "A - 4 + 4 = A" by simp_all
  have mem3: "memory_of m3 = take (A - 8) mem2 @ be_bytes (ucast (drop_bit 32 ms) :: uint32) @
      drop (A - 4) mem2"
    unfolding m3_def mem2_def
    using w2 memory_of_update [of "words - 2" m2 "swap_byte_order32 (ucast (drop_bit 32 ms))"]
    by (simp only: i2 le_bytes_swap32 m2(1)) (simp add: e)
  have lb: "length (be_bytes (w :: uint32)) = 4" for w
    by (simp add: be_bytes_def length_le_bytes_32)
  have t3: "take (A - 4) (memory_of m3) = take (A - 8) mem2 @ be_bytes (ucast (drop_bit 32 ms) :: uint32)"
    using A8 l2 by (simp add: mem3 lb)
  have d3: "drop A (memory_of m3) = []" using m3 W by simp
  have mem4: "memory_of m4 = take (A - 8) mem2 @ be_bytes (ucast (drop_bit 32 ms) :: uint32) @
      be_bytes (ucast ms :: uint32)"
    unfolding m4_def
    using w2 memory_of_update [of "words - 1" m3 "swap_byte_order32 (ucast ms)"]
    by (simp only: i1 le_bytes_swap32 m3 e t3 d3) simp
  from An have "A - 8 - ?n = Suc (A - (?n + 9))" by simp
  then have "take (A - 8) mem2 = (?msg @ [0x80]) @ replicate (A - (?n + 9)) 0"
    using An by (simp add: mem2_def m2(2) min_def)
  with mem4 have mem4: "memory_of m4 = (?msg @ [0x80]) @ replicate (A - (?n + 9)) 0 @
      be_bytes (ucast (drop_bit 32 ms) :: uint32) @ be_bytes (ucast ms :: uint32)" by simp
  have pre: "preprocess name = m4"
    by (simp add: preprocess_def Let_def m4_def m3_def m2_def m1_def words_def A_def ms_def
        fill_step_def [abs_def])
  show "length (preprocess name) = aligned_message_size (Suc (length name)) div 4"
    by (simp add: pre m4_def m3 words_def A_def)
  have "sha1_pad ?msg = (?msg @ [0x80]) @ replicate (A - (?n + 9)) 0 @ be_bytes ms"
    by (simp add: sha1_pad_def Az ms_def mult.commute)
  also have "\<dots> = memory_of m4"
    by (simp only: mem4 be_bytes_64_split [of ms])
  finally show "memory_of (preprocess name) = sha1_pad ?msg"
    by (simp only: pre)
qed

lemma make_id_refines_sha1:
  assumes "ascii name"
  shows "le_bytes (make_id name) = take 8 (sha1 (map byte_of_char name))"
proof -
  let ?pm = "preprocess name"
  let ?ws = "sha1_words (sha1_pad (map byte_of_char name))"
  let ?H = "(0x67452301, 0xEFCDAB89, 0x98BADCFE, 0x10325476, 0xC3D2E1F0) :: sha_state"
  from preprocess_memory(2) [OF assms] have ws: "?ws = map swap_byte_order32 ?pm"
    by (simp add: sha1_words_memory_of [symmetric])
  have chunk: "process_chunk ?pm (16 * i) = sha1_block (take 16 (drop (16 * i) ?ws))"
    if "i < length ?pm div 16" for i
  proof -
    from that have "16 * i + 16 \<le> length ?pm" by simp
    then show ?thesis
      by (intro ext) (simp add: process_chunk_eq ws take_map drop_map)
  qed
  have "fold (process_chunk ?pm) (map (\<lambda>k. 16 * k) [0..<length ?pm div 16]) ?H =
      fold (\<lambda>i. process_chunk ?pm (16 * i)) [0..<length ?pm div 16] ?H"
    by (simp add: fold_map comp_def)
  also have "\<dots> = fold (\<lambda>i. sha1_block (take 16 (drop (16 * i) ?ws))) [0..<length ?ws div 16] ?H"
    by (rule fold_cong) (simp_all add: chunk ws)
  finally have f: "fold (process_chunk ?pm) (map (\<lambda>k. 16 * k) [0..<length ?pm div 16]) ?H =
      fold (\<lambda>i. sha1_block (take 16 (drop (16 * i) ?ws))) [0..<length ?ws div 16] ?H" .
  obtain h0 h1 h2 h3 h4 where h:
    "fold (\<lambda>i. sha1_block (take 16 (drop (16 * i) ?ws))) [0..<length ?ws div 16] ?H =
      (h0, h1, h2, h3, h4)"
    by (metis prod_cases5)
  have lb: "length (be_bytes (w :: uint32)) = 4" for w
    by (simp add: be_bytes_def length_le_bytes_32)
  have "make_id name = swap_byte_order64 (push_bit 32 (ucast h0) OR ucast h1)"
    by (simp add: make_id_def Let_def f h)
  moreover have "sha1 (map byte_of_char name) = concat (map be_bytes [h0, h1, h2, h3, h4])"
    by (simp add: sha1_def Let_def h)
  ultimately show ?thesis
    by (simp add: le_bytes_id lb)
qed

subsection \<open>The two ids of the header's example\<close>

text \<open>
  Rules that unfold the word operations at numerals only, so that each is evaluated
  once its argument is a value.
\<close>

lemmas swap_eval =
  swap_byte_order32_def [of "numeral n"] swap_byte_order32_def [of 0] swap_byte_order32_def [of 1]
  swap_byte_order16_def [of "numeral n"] swap_byte_order16_def [of 0] swap_byte_order16_def [of 1]
  swap_byte_order8_def
  rotate_left_def [of "numeral n"] rotate_left_def [of 0] rotate_left_def [of 1]
  for n

lemmas swap64_eval = swap_byte_order64_def [of "numeral n"] for n

lemma replicate_numeral_eval: "replicate (numeral n) x = x # replicate (pred_numeral n) x"
  by (simp add: numeral_eq_Suc)

lemma upt_eval:
  "[0..<numeral n] = 0 # [Suc 0..<numeral n]"
  "[Suc 0..<numeral n] = (if Suc 0 < numeral n then Suc 0 # [2..<numeral n] else [])"
  by (simp_all add: upt_rec [of 0] upt_rec [of "Suc 0"] numeral_2_eq_2 del: upt_rec_numeral)

lemma round_eval:
  "round w j (a, b, c, d, e) =
     (rotate_left a 5 +
      (if j \<le> 19 then (b AND c) OR (NOT b AND d)
       else if j \<le> 39 then b XOR c XOR d
       else if j \<le> 59 then (b AND c) OR (b AND d) OR (c AND d)
       else b XOR c XOR d) + e +
      (if j \<le> 19 then 0x5A827999 else if j \<le> 39 then 0x6ED9EBA1
       else if j \<le> 59 then 0x8F1BBCDC else 0xCA62C1D6) +
      swap_byte_order32 (w ! j), a, rotate_left b 30, c, d)"
  by (simp add: round_def Let_def)


lemma make_id_person: "make_id ''v1::person'' = 0xf798d7655fbaf63b"
proof -
  define pm :: "uint32 list" where "pm =
     [976892278, 1936876912, 8416879, 0, 0, 0, 0, 0, 0, 0, 0, 0, 0, 0, 0, 1342177280]"
  define w :: "uint32 list" where "w =
     [976892278, 1936876912, 8416879, 0, 0, 0, 0, 0, 0, 0, 0, 0, 0, 0, 0, 1342177280,
      1953808178, 3873753824, 2684411358, 3907550821, 3452540353, 1090632381, 3503422922,
      999500675, 1810500126, 1818914388, 908586427, 101050614, 1128789803, 1313648140,
      1145132317, 2623614096, 3819277821, 1296965273, 2384401257, 2576499367, 656540275,
      1954765238, 3436233181, 3631601512, 2513922012, 3622024140, 1192541219, 2300102146,
      4019136274, 3262500626, 3294215807, 3433792999, 1949330612, 2412618266, 1157910972,
      561144399, 392269132, 1443766752, 2019161186, 2830751774, 3791334743, 1407141484,
      2337023014, 382307600, 3738215578, 2788794214, 3186841459, 1780397810, 3974897523,
      2150015893, 1718590536, 464757401, 1654455618, 2109928865, 2143574462, 3888753541,
      4147365703, 1961452462, 2826268387, 3118526032, 3937196554, 857761197, 796393181,
      3485190352]"
  have p: "preprocess ''v1::person'' = pm"
    unfolding pm_def by code_simp
  have l: "length pm div 16 = 1"
    by (simp add: pm_def)
  have w1: "fold (\<lambda>j w. w[j := pm ! (0 + j)]) [0..<16] (replicate 80 0) = pm @ replicate 64 0"
    by (simp add: pm_def replicate_numeral_eval upt_eval)
  have e: "extend_words (pm @ replicate 64 0) = w"
    by (simp add: extend_words_def pm_def w_def swap_eval replicate_numeral_eval)
  have r: "fold (round w) [0..<80] (0x67452301, 0xEFCDAB89, 0x98BADCFE, 0x10325476, 0xC3D2E1F0) =
      (3568408414, 1980362094, 3818757067, 3593510086, 3505891498)"
    by (simp add: w_def round_eval swap_eval upt_eval)
  have c: "process_chunk pm 0 (0x67452301, 0xEFCDAB89, 0x98BADCFE, 0x10325476, 0xC3D2E1F0) =
      (1006025311, 1708628215, 2086172873, 3865243964, 2496301722)"
    by (simp only: process_chunk_def Let_def prod.case w1 e r) simp
  show ?thesis
    by (simp only: make_id_def Let_def p l) (simp add: c swap64_eval swap_eval upt_eval)
qed

lemma make_id_student: "make_id ''v1::student'' = 0x8278ec9ea7e16526"
proof -
  define pm :: "uint32 list" where "pm =
     [976892278, 1685419123, 2155114085, 0, 0, 0, 0, 0, 0, 0, 0, 0, 0, 0, 0, 1476395008]"
  define w :: "uint32 list" where "w =
     [976892278, 1685419123, 2155114085, 0, 0, 0, 0, 0, 0, 0, 0, 0, 0, 0, 0, 1476395008,
      1956494886, 3370838246, 2968116426, 3896147277, 2446709197, 1641265557, 3497392794,
      2477499291, 731647590, 809379320, 1183121058, 2253252438, 1121446251, 4272852590,
      1162495957, 2183939373, 596427977, 2873683725, 3408489745, 1481690767, 1350523490,
      2399138787, 3454532428, 3800839001, 2178387677, 2713300447, 1542230786, 1120490196,
      3971461638, 1394825029, 3553711368, 1321096958, 1956831360, 48345771, 487187487,
      3230211953, 3885777671, 1169352384, 3218112208, 3559855871, 3612816958, 3162662624,
      4261062345, 224942268, 3387983059, 1269531492, 731260873, 2717969906, 3954139787,
      2885212391, 1256183879, 3354953485, 1971897030, 550721337, 148099413, 2118893142,
      3265481611, 629305308, 3967254, 2251304892, 1691950080, 2475253875, 2645849943,
      651439751]"
  have p: "preprocess ''v1::student'' = pm"
    unfolding pm_def by code_simp
  have l: "length pm div 16 = 1"
    by (simp add: pm_def)
  have w1: "fold (\<lambda>j w. w[j := pm ! (0 + j)]) [0..<16] (replicate 80 0) = pm @ replicate 64 0"
    by (simp add: pm_def replicate_numeral_eval upt_eval)
  have e: "extend_words (pm @ replicate 64 0) = w"
    by (simp add: extend_words_def pm_def w_def swap_eval replicate_numeral_eval)
  have r: "fold (round w) [0..<80] (0x67452301, 0xEFCDAB89, 0x98BADCFE, 0x10325476, 0xC3D2E1F0) =
      (3206594214, 2938031353, 2409959203, 1360600657, 3501733406)"
    by (simp add: w_def round_eval swap_eval upt_eval)
  have c: "process_chunk pm 0 (0x67452301, 0xEFCDAB89, 0x98BADCFE, 0x10325476, 0xC3D2E1F0) =
      (644211111, 2666297474, 677375009, 1632334535, 2492143630)"
    by (simp only: process_chunk_def Let_def prod.case w1 e r) simp
  show ?thesis
    by (simp only: make_id_def Let_def p l) (simp add: c swap64_eval swap_eval upt_eval)
qed

text \<open>
  C4. \<open>make_id\<close> is a function of the name alone. For an ASCII name (shorter than
  \<open>2 ^ 61\<close> bytes, the bound of the standard) the id, laid out as the host lays out a
  64-bit integer, is the first eight bytes of the standard SHA-1 digest of the name's
  bytes: the first digest word is the high half and the second the low half of the value
  whose bytes are then swapped. The ids of \<^verbatim>\<open>"v1::person"\<close> and \<^verbatim>\<open>"v1::student"\<close> are the two
  values below, distinct and not zero.
\<close>

theorem make_id_is_sha1_prefix:
  "(ascii name \<and> length name < 2 ^ 61 \<longrightarrow>
      le_bytes (make_id name) = take 8 (sha1 (map byte_of_char name))) \<and>
   make_id ''v1::person'' = 0xf798d7655fbaf63b \<and>
   make_id ''v1::student'' = 0x8278ec9ea7e16526 \<and>
   make_id ''v1::person'' \<noteq> make_id ''v1::student'' \<and>
   make_id ''v1::person'' \<noteq> 0 \<and> make_id ''v1::student'' \<noteq> 0"
  by (simp add: make_id_refines_sha1 make_id_person make_id_student)

theorem make_id_is_sha1_prefix_witness:
  "ascii ''v1::person'' \<and> length ''v1::person'' < 2 ^ 61 \<and>
   le_bytes (make_id ''v1::person'') = take 8 (sha1 (map byte_of_char ''v1::person''))"
proof -
  have a: "ascii ''v1::person''" by (simp add: ascii_def)
  have l: "length ''v1::person'' < 2 ^ 61" by simp
  from make_id_is_sha1_prefix [of "''v1::person''"] a l show ?thesis by blast
qed

end
